theory Spec2Isabelle
  imports Main "HOL-Library.Char_ord" "HOL-Library.List_Lexorder"
begin

section \<open>bencode2json: the byte stream and the three I/O functions\<close>

text \<open>
  The program reads bencoded data from stdin and writes JSON to stdout, one byte at a
  time, through \<^verbatim>\<open>get_character\<close>, \<^verbatim>\<open>unget_character\<close> and
  \<^verbatim>\<open>output_character\<close>. C's \<^verbatim>\<open>char\<close> is the 8-bit type \<^typ>\<open>char\<close>.

  The state of a run is the input that is still unread, the output written so far, and
  the record of the calls made to \<^verbatim>\<open>get_character\<close> and
  \<^verbatim>\<open>unget_character\<close>, oldest first. The record changes nothing in what the
  program computes; the pushback discipline is stated over it.
\<close>

datatype io_event =
    Get "char option"   \<comment> \<open>a call of get_character and what getc returned (None: EOF)\<close>
  | Unget char          \<comment> \<open>a call of unget_character and its argument\<close>

record state =
  inp :: "char list"
  out :: "char list"
  calls :: "io_event list"

definition stdin :: "char list \<Rightarrow> state" where
  "stdin bs = \<lparr>inp = bs, out = [], calls = []\<rparr>"

text \<open>
  What stops a run short of returning. \<open>OutOfFuel\<close> is the model's own: the loops of
  the program that can run forever take a bound on the number of nested iterations and
  calls, and stop with it when the bound is used up. The other three are the places where
  the C standard leaves the behaviour of the program undefined.
\<close>

datatype error =
    OutOfFuel
  | OutOfBounds      \<comment> \<open>a write past the end of lenBuf\<close>
  | Uninitialised    \<comment> \<open>a read of a cell of lenBuf that was never written\<close>
  | IntOverflow      \<comment> \<open>atoi on a number that int cannot represent\<close>

datatype 'a outcome = Return 'a state | Stop error state

text \<open>
  \<^verbatim>\<open>static int get_character() { return getc(stdin); }\<close>
  getc returns the next byte as an unsigned char converted to int, or EOF at the end of
  the stream; the model keeps the two apart as \<open>Some b\<close> and \<open>None\<close>.
\<close>

definition get_character :: "state \<Rightarrow> char option \<times> state" where
  "get_character s =
     (case inp s of
        [] \<Rightarrow> (None, s\<lparr>calls := calls s @ [Get None]\<rparr>)
      | b # bs \<Rightarrow> (Some b, s\<lparr>inp := bs, calls := calls s @ [Get (Some b)]\<rparr>))"

text \<open>
  Every caller stores the result in a \<^verbatim>\<open>char\<close>: \<^verbatim>\<open>char c = get_character();\<close>.
  EOF is \<open>-1\<close>, which the conversion to char turns into the byte 0xFF.
\<close>

fun to_char :: "char option \<Rightarrow> char" where
  "to_char None = CHR 0xFF"
| "to_char (Some b) = b"

text \<open>
  \<^verbatim>\<open>static void unget_character(char c) { ungetc(c, stdin); }\<close>
  ungetc takes an int. Where char is a signed type (as on x86 and x86-64, the platform
  modelled here) the char 0xFF is passed as \<open>-1\<close>, the value of EOF, and for that
  argument ungetc fails and leaves the stream unchanged (C11 7.21.7.10). Every other
  value is pushed back as the next byte to read.
\<close>

definition unget_character :: "char \<Rightarrow> state \<Rightarrow> state" where
  "unget_character c s =
     (if c = CHR 0xFF then s\<lparr>calls := calls s @ [Unget c]\<rparr>
      else s\<lparr>inp := c # inp s, calls := calls s @ [Unget c]\<rparr>)"

text \<open>\<^verbatim>\<open>static void output_character(char c) { putc(c, stdout); }\<close>\<close>

definition output_character :: "char \<Rightarrow> state \<Rightarrow> state" where
  "output_character c s = s\<lparr>out := out s @ [c]\<rparr>"

section \<open>Integers\<close>

text \<open>
  \<^verbatim>\<open>
  static void convert_integer() {
    for (;;) {
      char c = get_character();
      if (c == 'e') break;
      else output_character(c);
    }
  }\<close>
  The loop has no other exit, so it takes fuel: one unit per iteration.
\<close>

fun convert_integer :: "nat \<Rightarrow> state \<Rightarrow> unit outcome" where
  "convert_integer 0 s = Stop OutOfFuel s"
| "convert_integer (Suc n) s =
     (case get_character s of (r, s1) \<Rightarrow>
        let c = to_char r in
        if c = CHR ''e'' then Return () s1
        else convert_integer n (output_character c s1))"

section \<open>Strings\<close>

subsection \<open>The C library functions the string converter calls\<close>

text \<open>
  The classification functions of \<^verbatim>\<open>ctype.h\<close> in the "C" locale (the program never
  calls setlocale), on the value of the byte. The source passes them a char; for a byte
  from 0x80 on that is a negative int where char is signed, which the tables of the usual
  C libraries place in none of the classes, as they do the values 128 to 255.
\<close>

definition isdigit :: "char \<Rightarrow> bool" where
  "isdigit c = (c \<in> set ''0123456789'')"

definition isalnum :: "char \<Rightarrow> bool" where
  "isalnum c =
     (c \<in> set ''0123456789ABCDEFGHIJKLMNOPQRSTUVWXYZabcdefghijklmnopqrstuvwxyz'')"

definition ispunct :: "char \<Rightarrow> bool" where
  "ispunct c =
     (c \<in> set [CHR 0x21, CHR 0x22, CHR 0x23, CHR 0x24, CHR 0x25, CHR 0x26, CHR 0x27,
                CHR 0x28, CHR 0x29, CHR 0x2A, CHR 0x2B, CHR 0x2C, CHR 0x2D, CHR 0x2E,
                CHR 0x2F, CHR 0x3A, CHR 0x3B, CHR 0x3C, CHR 0x3D, CHR 0x3E, CHR 0x3F,
                CHR 0x40, CHR 0x5B, CHR 0x5C, CHR 0x5D, CHR 0x5E, CHR 0x5F, CHR 0x60,
                CHR 0x7B, CHR 0x7C, CHR 0x7D, CHR 0x7E])"

definition isspace :: "char \<Rightarrow> bool" where
  "isspace c = (c \<in> set [CHR 0x20, CHR 0x09, CHR 0x0A, CHR 0x0B, CHR 0x0C, CHR 0x0D])"

text \<open>
  \<^verbatim>\<open>atoi\<close>: skip white space, take an optional sign, then the longest run of decimal
  digits; no digit at all gives 0. The result is an int, here of 32 bits; when the number
  does not fit, the behaviour is undefined (C11 7.22.1), which is \<open>None\<close>.
\<close>

definition INT_MAX :: int where
  "INT_MAX = 2147483647"

definition INT_MIN :: int where
  "INT_MIN = - 2147483648"

definition digit_value :: "char \<Rightarrow> nat" where
  "digit_value c = of_char c - 48"

definition digits_value :: "char list \<Rightarrow> nat" where
  "digits_value ds = foldl (\<lambda>a d. 10 * a + digit_value d) 0 ds"

definition atoi :: "char list \<Rightarrow> int option" where
  "atoi str =
     (let t = dropWhile isspace str;
          (neg, u) = (case t of
                        [] \<Rightarrow> (False, t)
                      | c # r \<Rightarrow> if c = CHR ''-'' then (True, r)
                                 else if c = CHR ''+'' then (False, r)
                                 else (False, t));
          v = int (digits_value (takeWhile isdigit u));
          r = (if neg then - v else v)
      in if INT_MIN \<le> r \<and> r \<le> INT_MAX then Some r else None)"

text \<open>The conversion of an int to \<^verbatim>\<open>size_t\<close>, of 64 bits: modulo \<open>2^64\<close>.\<close>

definition to_size_t :: "int \<Rightarrow> nat" where
  "to_size_t i = nat (i mod 2 ^ 64)"

text \<open>\<^verbatim>\<open>sprintf(byte, "%02x", (uint8_t)c)\<close>: two lowercase hexadecimal digits.\<close>

definition hex_digit :: "nat \<Rightarrow> char" where
  "hex_digit d = ''0123456789abcdef'' ! (d mod 16)"

definition sprintf_02x :: "char \<Rightarrow> char list" where
  "sprintf_02x c = [hex_digit (of_char c div 16), hex_digit (of_char c mod 16)]"

subsection \<open>The length prefix\<close>

text \<open>
  \<^verbatim>\<open>
  #define MAX_INT_LEN 50

  static size_t read_count() {
    char lenBuf[MAX_INT_LEN];
    size_t lenBufLen = 0;
    for (;;) {
      char c = get_character();
      if (c == ':') break;
      lenBufLen++;
      lenBuf[lenBufLen - 1] = c;
      if (lenBufLen >= MAX_INT_LEN) break;
    }
    lenBuf[lenBufLen] = 0;
    return atoi(lenBuf);
  }\<close>
  The buffer is a list of \<open>MAX_INT_LEN\<close> cells, none of them written at first
  (\<open>None\<close>). A write checks its index against the size of the buffer; reading the
  buffer as a C string walks it up to the first null byte.
\<close>

definition MAX_INT_LEN :: nat where
  "MAX_INT_LEN = 50"

definition store :: "char option list \<Rightarrow> nat \<Rightarrow> char \<Rightarrow> char option list option" where
  "store buf i c = (if i < length buf then Some (buf[i := Some c]) else None)"

fun c_string :: "char option list \<Rightarrow> error + char list" where
  "c_string [] = Inl OutOfBounds"
| "c_string (None # cells) = Inl Uninitialised"
| "c_string (Some c # cells) =
     (if c = CHR 0x00 then Inr []
      else (case c_string cells of Inl e \<Rightarrow> Inl e | Inr cs \<Rightarrow> Inr (c # cs)))"

function read_count_loop ::
  "char option list \<Rightarrow> nat \<Rightarrow> state \<Rightarrow> (char option list \<times> nat) outcome" where
  "read_count_loop lenBuf lenBufLen s =
     (case get_character s of (r, s1) \<Rightarrow>
        let c = to_char r in
        if c = CHR '':'' then Return (lenBuf, lenBufLen) s1
        else
          (case store lenBuf (Suc lenBufLen - 1) c of
             None \<Rightarrow> Stop OutOfBounds s1
           | Some lenBuf' \<Rightarrow>
               if Suc lenBufLen \<ge> MAX_INT_LEN then Return (lenBuf', Suc lenBufLen) s1
               else read_count_loop lenBuf' (Suc lenBufLen) s1))"
  by pat_completeness auto
termination
  by (relation "measure (\<lambda>(lenBuf, lenBufLen, s). MAX_INT_LEN - lenBufLen)") auto

declare read_count_loop.simps [simp del]

definition read_count :: "state \<Rightarrow> nat outcome" where
  "read_count s =
     (case read_count_loop (replicate MAX_INT_LEN None) 0 s of
        Stop e s1 \<Rightarrow> Stop e s1
      | Return (lenBuf, lenBufLen) s1 \<Rightarrow>
          (case store lenBuf lenBufLen (CHR 0x00) of
             None \<Rightarrow> Stop OutOfBounds s1
           | Some lenBuf' \<Rightarrow>
               (case c_string lenBuf' of
                  Inl e \<Rightarrow> Stop e s1
                | Inr str \<Rightarrow>
                    (case atoi str of
                       None \<Rightarrow> Stop IntOverflow s1
                     | Some i \<Rightarrow> Return (to_size_t i) s1))))"

subsection \<open>The payload\<close>

text \<open>
  \<^verbatim>\<open>
  static void convert_string() {
    size_t count = read_count();
    char byte[3];
    size_t i;
    output_character('"');
    for (i = 0; i < count; i++) {
      char c = get_character();
      if (c == '"' || c == '\\') {
        output_character('\\');
        output_character(c);
      } else if (isalnum(c) || ispunct(c) || c == ' ') {
        output_character(c);
      } else {
        output_character('\\');
        output_character('u');
        output_character('0');
        output_character('0');
        sprintf(byte, "%02x", (uint8_t)c);
        output_character(byte[0]);
        output_character(byte[1]);
      }
    }
    output_character('"');
  }\<close>
  \<open>convert_char\<close> is the body of the loop and \<open>convert_chars k\<close> the loop with \<open>k\<close>
  iterations left.
\<close>

definition convert_char :: "state \<Rightarrow> state" where
  "convert_char s =
     (case get_character s of (r, s1) \<Rightarrow>
        let c = to_char r in
        if c = CHR 0x22 \<or> c = CHR 0x5C then
          output_character c (output_character (CHR 0x5C) s1)
        else if isalnum c \<or> ispunct c \<or> c = CHR '' '' then
          output_character c s1
        else
          (let byte = sprintf_02x c in
           output_character (byte ! 1) (output_character (byte ! 0)
             (output_character (CHR ''0'') (output_character (CHR ''0'')
               (output_character (CHR ''u'') (output_character (CHR 0x5C) s1)))))))"

fun convert_chars :: "nat \<Rightarrow> state \<Rightarrow> state" where
  "convert_chars 0 s = s"
| "convert_chars (Suc k) s = convert_chars k (convert_char s)"

definition convert_string :: "state \<Rightarrow> unit outcome" where
  "convert_string s =
     (case read_count s of
        Stop e s1 \<Rightarrow> Stop e s1
      | Return count s1 \<Rightarrow>
          Return () (output_character (CHR 0x22)
            (convert_chars count (output_character (CHR 0x22) s1))))"

section \<open>Lists, dictionaries and the dispatcher\<close>

text \<open>
  \<^verbatim>\<open>
  static void convert_list() {
    uint8_t output = 0;
    output_character('[');
    for (;;) {
      char c = get_character();
      if (c == 'e') break;
      unget_character(c);
      if (output) output_character(',');
      output = 1;
      convert_value();
    }
    output_character(']');
  }

  static void convert_dictionary() {
    uint8_t output = 0;
    output_character('{');
    for (;;) {
      char c = get_character();
      if (c == 'e') break;
      unget_character(c);
      if (output) output_character(',');
      output = 1;
      convert_value();
      output_character(':');
      convert_value();
    }
    output_character('}');
  }

  static void convert_value() {
    char c = get_character();
    if (c == 'i') convert_integer();
    else if (c == 'l') convert_list();
    else if (c == 'd') convert_dictionary();
    else { unget_character(c); convert_string(); }
  }\<close>
  The three functions call each other, and the two loops have no exit but the byte
  \<open>e\<close>; every call of \<open>convert_value\<close> and every iteration of a loop takes one unit
  of fuel. \<open>convert_list_loop\<close> and \<open>convert_dictionary_loop\<close> are the two
  \<^verbatim>\<open>for (;;)\<close> loops, with the flag \<^verbatim>\<open>output\<close> as an argument. The model puts
  no other bound on the depth of the calls: the stack of the C program is taken to be deep
  enough.
\<close>

fun convert_value :: "nat \<Rightarrow> state \<Rightarrow> unit outcome"
and convert_list :: "nat \<Rightarrow> state \<Rightarrow> unit outcome"
and convert_list_loop :: "nat \<Rightarrow> bool \<Rightarrow> state \<Rightarrow> unit outcome"
and convert_dictionary :: "nat \<Rightarrow> state \<Rightarrow> unit outcome"
and convert_dictionary_loop :: "nat \<Rightarrow> bool \<Rightarrow> state \<Rightarrow> unit outcome" where
  "convert_value 0 s = Stop OutOfFuel s"
| "convert_value (Suc n) s =
     (case get_character s of (r, s1) \<Rightarrow>
        let c = to_char r in
        if c = CHR ''i'' then convert_integer n s1
        else if c = CHR ''l'' then convert_list n s1
        else if c = CHR ''d'' then convert_dictionary n s1
        else convert_string (unget_character c s1))"
| "convert_list n s =
     (case convert_list_loop n False (output_character (CHR ''['') s) of
        Stop e s1 \<Rightarrow> Stop e s1
      | Return _ s1 \<Rightarrow> Return () (output_character (CHR '']'') s1))"
| "convert_list_loop 0 output s = Stop OutOfFuel s"
| "convert_list_loop (Suc n) output s =
     (case get_character s of (r, s1) \<Rightarrow>
        let c = to_char r in
        if c = CHR ''e'' then Return () s1
        else
          (let s2 = unget_character c s1;
               s3 = (if output then output_character (CHR '','') s2 else s2)
           in case convert_value n s3 of
                Stop e s4 \<Rightarrow> Stop e s4
              | Return _ s4 \<Rightarrow> convert_list_loop n True s4))"
| "convert_dictionary n s =
     (case convert_dictionary_loop n False (output_character (CHR ''{'') s) of
        Stop e s1 \<Rightarrow> Stop e s1
      | Return _ s1 \<Rightarrow> Return () (output_character (CHR ''}'') s1))"
| "convert_dictionary_loop 0 output s = Stop OutOfFuel s"
| "convert_dictionary_loop (Suc n) output s =
     (case get_character s of (r, s1) \<Rightarrow>
        let c = to_char r in
        if c = CHR ''e'' then Return () s1
        else
          (let s2 = unget_character c s1;
               s3 = (if output then output_character (CHR '','') s2 else s2)
           in case convert_value n s3 of
                Stop e s4 \<Rightarrow> Stop e s4
              | Return _ s4 \<Rightarrow>
                  (case convert_value n (output_character (CHR '':'') s4) of
                     Stop e s5 \<Rightarrow> Stop e s5
                   | Return _ s5 \<Rightarrow> convert_dictionary_loop n True s5)))"

text \<open>
  \<^verbatim>\<open>int main(void) { convert_value(); return 0; }\<close>
  The value returned is the exit status.
\<close>

definition main :: "nat \<Rightarrow> state \<Rightarrow> int outcome" where
  "main n s =
     (case convert_value n s of
        Stop e s1 \<Rightarrow> Stop e s1
      | Return _ s1 \<Rightarrow> Return 0 s1)"

section \<open>Notions the properties are stated with\<close>

text \<open>The state in which a run ended, and the value it returned if it did return.\<close>

fun final :: "'a outcome \<Rightarrow> state" where
  "final (Return v s) = s"
| "final (Stop e s) = s"

fun returned :: "'a outcome \<Rightarrow> 'a option" where
  "returned (Return v s) = Some v"
| "returned (Stop e s) = None"

text \<open>
  The JSON text for one byte of a string, as the specification words it: a backslash and
  the byte for a double quote or a backslash; the byte itself when it is alphanumeric,
  punctuation or a space; otherwise \<^verbatim>\<open>\u00\<close> and the two hexadecimal digits of the byte.
\<close>

definition json_escape :: "char \<Rightarrow> char list" where
  "json_escape c =
     (if c = CHR 0x22 \<or> c = CHR 0x5C then [CHR 0x5C, c]
      else if isalnum c \<or> ispunct c \<or> c = CHR '' '' then [c]
      else [CHR 0x5C, CHR ''u'', CHR ''0'', CHR ''0''] @ sprintf_02x c)"

text \<open>The value of a lowercase hexadecimal digit.\<close>

definition hex_value :: "char \<Rightarrow> nat" where
  "hex_value c = (if isdigit c then of_char c - 48 else of_char c - 87)"

subsection \<open>Bencoded values and their JSON text\<close>

text \<open>
  The program never builds a value: it turns the bytes of the input into the bytes of the
  output as it reads them. To say what it does on well-formed input, the values of the
  bencode format are a datatype here, with the encoding of a value (what a bencode encoder
  writes for it: \<^verbatim>\<open>i<digits>e\<close>, \<^verbatim>\<open><length>:<bytes>\<close>, \<^verbatim>\<open>l<values>e\<close>,
  \<^verbatim>\<open>d(<string><value>)*e\<close>) and the JSON text the specification expects for it. A
  dictionary is the list of its pairs, in the order of the encoding.
\<close>

datatype bvalue =
    BInteger int
  | BString "char list"
  | BList "bvalue list"
  | BDictionary "(char list \<times> bvalue) list"

text \<open>Decimal numerals, without leading zeros, and with a minus sign for a negative int.\<close>

definition digit_char :: "nat \<Rightarrow> char" where
  "digit_char d = ''0123456789'' ! (d mod 10)"

fun decimal :: "nat \<Rightarrow> char list" where
  "decimal n = (if n < 10 then [digit_char n] else decimal (n div 10) @ [digit_char (n mod 10)])"

declare decimal.simps [simp del]

definition show_int :: "int \<Rightarrow> char list" where
  "show_int k = (if k < 0 then CHR ''-'' # decimal (nat (- k)) else decimal (nat k))"

text \<open>The encoding of a value.\<close>

definition encode_string :: "char list \<Rightarrow> char list" where
  "encode_string bs = decimal (length bs) @ CHR '':'' # bs"

fun encode :: "bvalue \<Rightarrow> char list" where
  "encode (BInteger k) = CHR ''i'' # show_int k @ ''e''"
| "encode (BString bs) = encode_string bs"
| "encode (BList vs) = CHR ''l'' # concat (map encode vs) @ ''e''"
| "encode (BDictionary kvs) =
     CHR ''d'' # concat (map (\<lambda>(k, v). encode_string k @ encode v) kvs) @ ''e''"

text \<open>
  The JSON text of a value: a number as it is, a string between double quotes with each
  byte as \<open>json_escape\<close> has it, a list between brackets and a dictionary between braces,
  with a comma before every item but the first.
\<close>

definition json_string :: "char list \<Rightarrow> char list" where
  "json_string bs = CHR 0x22 # concat (map json_escape bs) @ [CHR 0x22]"

fun join :: "char list list \<Rightarrow> char list" where
  "join [] = []"
| "join (x # xs) = x @ concat (map ((#) (CHR '','')) xs)"

fun json :: "bvalue \<Rightarrow> char list" where
  "json (BInteger k) = show_int k"
| "json (BString bs) = json_string bs"
| "json (BList vs) = CHR ''['' # join (map json vs) @ '']''"
| "json (BDictionary kvs) =
     CHR ''{'' # join (map (\<lambda>(k, v). json_string k @ CHR '':'' # json v) kvs) @ ''}''"

text \<open>
  The length of a string reaches the program through \<^verbatim>\<open>atoi\<close>, as an int. A value
  is \<open>int_sized\<close> when every string in it, keys included, is at most \<open>INT_MAX\<close> bytes
  long.
\<close>

fun int_sized :: "bvalue \<Rightarrow> bool" where
  "int_sized (BInteger k) = True"
| "int_sized (BString bs) = (int (length bs) \<le> INT_MAX)"
| "int_sized (BList vs) = (\<forall>v\<in>set vs. int_sized v)"
| "int_sized (BDictionary kvs) =
     (\<forall>(k, v)\<in>set kvs. int (length k) \<le> INT_MAX \<and> int_sized v)"

text \<open>
  Fuel that is enough for \<open>convert_value\<close> on the encoding of a value: a bound on the
  nesting of calls and iterations it takes.
\<close>

fun enough :: "bvalue \<Rightarrow> nat" where
  "enough (BInteger k) = 2 + length (show_int k)"
| "enough (BString bs) = 1"
| "enough (BList vs) = 2 + length vs + sum_list (map enough vs)"
| "enough (BDictionary kvs) = 2 + length kvs + sum_list (map (\<lambda>(k, v). enough v) kvs)"

subsection \<open>The round trip: a JSON decoder and a reference bencode encoder\<close>

text \<open>
  Printable ASCII is what \<^verbatim>\<open>isprint\<close> accepts in the "C" locale: the alphanumeric
  characters, punctuation and the space. A value is \<open>printable\<close> when every byte of its
  strings, keys included, is.
\<close>

definition isprint :: "char \<Rightarrow> bool" where
  "isprint c = (isalnum c \<or> ispunct c \<or> c = CHR '' '')"

fun printable :: "bvalue \<Rightarrow> bool" where
  "printable (BInteger k) = True"
| "printable (BString bs) = (\<forall>c\<in>set bs. isprint c)"
| "printable (BList vs) = (\<forall>v\<in>set vs. printable v)"
| "printable (BDictionary kvs) = (\<forall>(k, v)\<in>set kvs. (\<forall>c\<in>set k. isprint c) \<and> printable v)"

text \<open>
  The bencode format wants the keys of a dictionary in ascending order, compared as byte
  strings, and no key twice. A reference encoder writes them so: it sorts the pairs by key.
  Everything else it writes as \<open>encode\<close> does.
\<close>

fun canonical :: "bvalue \<Rightarrow> bool" where
  "canonical (BInteger k) = True"
| "canonical (BString bs) = True"
| "canonical (BList vs) = (\<forall>v\<in>set vs. canonical v)"
| "canonical (BDictionary kvs) =
     (sorted (map fst kvs) \<and> distinct (map fst kvs) \<and> (\<forall>(k, v)\<in>set kvs. canonical v))"

function reference_encode :: "bvalue \<Rightarrow> char list" where
  "reference_encode (BInteger k) = CHR ''i'' # show_int k @ ''e''"
| "reference_encode (BString bs) = encode_string bs"
| "reference_encode (BList vs) = CHR ''l'' # concat (map reference_encode vs) @ ''e''"
| "reference_encode (BDictionary kvs) =
     CHR ''d'' # concat (map (\<lambda>(k, v). encode_string k @ reference_encode v)
                          (sort_key fst kvs)) @ ''e''"
  by pat_completeness auto
termination
proof (relation "measure size")
  fix kvs :: "(char list \<times> bvalue) list" and x k v
  assume "x \<in> set (sort_key fst kvs)" and "(k, v) = x"
  then have "(k, v) \<in> set kvs" by simp
  then show "(v, BDictionary kvs) \<in> measure size"
    by (induction kvs) auto
next
  fix vs :: "bvalue list" and v
  assume "v \<in> set vs"
  then show "(v, BList vs) \<in> measure size"
    by (induction vs) auto
qed simp

text \<open>
  A decoder for the JSON texts in question: integers, strings with the two-character
  escapes of JSON (the \<^verbatim>\<open>\u\<close> escape, which the program writes for no printable byte,
  is not decoded), arrays and objects, without white space. An object decodes to its pairs
  in the order of the text. The recursion on nested values is bounded by fuel.
\<close>

definition unescape :: "char \<Rightarrow> char option" where
  "unescape e =
     (if e = CHR 0x22 \<or> e = CHR 0x5C \<or> e = CHR ''/'' then Some e
      else if e = CHR ''b'' then Some (CHR 0x08)
      else if e = CHR ''f'' then Some (CHR 0x0C)
      else if e = CHR ''n'' then Some (CHR 0x0A)
      else if e = CHR ''r'' then Some (CHR 0x0D)
      else if e = CHR ''t'' then Some (CHR 0x09)
      else None)"

fun json_chars :: "char list \<Rightarrow> (char list \<times> char list) option" where
  "json_chars [] = None"
| "json_chars (c # cs) =
     (if c = CHR 0x22 then Some ([], cs)
      else if c = CHR 0x5C then
        (case cs of
           [] \<Rightarrow> None
         | e # cs' \<Rightarrow>
             (case unescape e of
                None \<Rightarrow> None
              | Some b \<Rightarrow>
                  (case json_chars cs' of
                     None \<Rightarrow> None
                   | Some (bs, r) \<Rightarrow> Some (b # bs, r))))
      else (case json_chars cs of
              None \<Rightarrow> None
            | Some (bs, r) \<Rightarrow> Some (c # bs, r)))"

definition json_number :: "char list \<Rightarrow> (int \<times> char list) option" where
  "json_number cs =
     (case cs of
        [] \<Rightarrow> None
      | c # r \<Rightarrow>
          if c = CHR ''-'' then
            (if takeWhile isdigit r = [] then None
             else Some (- int (digits_value (takeWhile isdigit r)), dropWhile isdigit r))
          else
            (if takeWhile isdigit cs = [] then None
             else Some (int (digits_value (takeWhile isdigit cs)), dropWhile isdigit cs)))"

fun json_value :: "nat \<Rightarrow> char list \<Rightarrow> (bvalue \<times> char list) option"
and json_items :: "nat \<Rightarrow> char list \<Rightarrow> (bvalue list \<times> char list) option"
and json_members :: "nat \<Rightarrow> char list \<Rightarrow> ((char list \<times> bvalue) list \<times> char list) option" where
  "json_value 0 cs = None"
| "json_value (Suc n) [] = None"
| "json_value (Suc n) (c # cs) =
     (if c = CHR 0x22 then
        (case json_chars cs of
           None \<Rightarrow> None
         | Some (bs, r) \<Rightarrow> Some (BString bs, r))
      else if c = CHR ''['' then
        (case cs of
           [] \<Rightarrow> None
         | c' # r \<Rightarrow>
             if c' = CHR '']'' then Some (BList [], r)
             else (case json_items n cs of
                     None \<Rightarrow> None
                   | Some (vs, r') \<Rightarrow> Some (BList vs, r')))
      else if c = CHR ''{'' then
        (case cs of
           [] \<Rightarrow> None
         | c' # r \<Rightarrow>
             if c' = CHR ''}'' then Some (BDictionary [], r)
             else (case json_members n cs of
                     None \<Rightarrow> None
                   | Some (kvs, r') \<Rightarrow> Some (BDictionary kvs, r')))
      else (case json_number (c # cs) of
              None \<Rightarrow> None
            | Some (k, r) \<Rightarrow> Some (BInteger k, r)))"
| "json_items 0 cs = None"
| "json_items (Suc n) cs =
     (case json_value n cs of
        None \<Rightarrow> None
      | Some (v, r) \<Rightarrow>
          (case r of
             [] \<Rightarrow> None
           | c # r' \<Rightarrow>
               if c = CHR '','' then
                 (case json_items n r' of
                    None \<Rightarrow> None
                  | Some (vs, r'') \<Rightarrow> Some (v # vs, r''))
               else if c = CHR '']'' then Some ([v], r')
               else None))"
| "json_members 0 cs = None"
| "json_members (Suc n) cs =
     (case cs of
        [] \<Rightarrow> None
      | q # cs1 \<Rightarrow>
          if q \<noteq> CHR 0x22 then None
          else
            (case json_chars cs1 of
               None \<Rightarrow> None
             | Some (k, r) \<Rightarrow>
                 (case r of
                    [] \<Rightarrow> None
                  | c # r1 \<Rightarrow>
                      if c \<noteq> CHR '':'' then None
                      else
                        (case json_value n r1 of
                           None \<Rightarrow> None
                         | Some (v, r2) \<Rightarrow>
                             (case r2 of
                                [] \<Rightarrow> None
                              | c2 # r3 \<Rightarrow>
                                  if c2 = CHR '','' then
                                    (case json_members n r3 of
                                       None \<Rightarrow> None
                                     | Some (kvs, r4) \<Rightarrow> Some ((k, v) # kvs, r4))
                                  else if c2 = CHR ''}'' then Some ([(k, v)], r3)
                                  else None)))))"

definition json_decode :: "nat \<Rightarrow> char list \<Rightarrow> bvalue option" where
  "json_decode n cs =
     (case json_value n cs of
        None \<Rightarrow> None
      | Some (v, r) \<Rightarrow> if r = [] then Some v else None)"

text \<open>A text can follow a number when it does not go on with a digit.\<close>

definition delimits :: "char list \<Rightarrow> bool" where
  "delimits rest = (case rest of [] \<Rightarrow> True | c # cs \<Rightarrow> \<not> isdigit c)"

subsection \<open>The pushback discipline\<close>

text \<open>
  Over the record of calls: a call of \<^verbatim>\<open>unget_character\<close> is in order only directly
  after a call of \<^verbatim>\<open>get_character\<close>, and with the value that call returned, as the
  char it was stored in. \<open>held\<close> counts the bytes that are pushed back and not read
  again yet: \<^verbatim>\<open>ungetc\<close> adds one, except for 0xFF, and a read takes one back if
  there is one. \<open>extends s s'\<close> says that \<open>s'\<close>
  comes after \<open>s\<close> by calls that are in order.
\<close>

fun pushback_ok :: "io_event list \<Rightarrow> bool" where
  "pushback_ok [] = True"
| "pushback_ok (Unget c # es) = False"
| "pushback_ok (Get r # Unget c # es) = (c = to_char r \<and> pushback_ok es)"
| "pushback_ok (Get r # es) = pushback_ok es"

definition held :: "io_event list \<Rightarrow> nat" where
  "held es =
     foldl (\<lambda>h e. case e of Get r \<Rightarrow> h - 1
                             | Unget c \<Rightarrow> if c = CHR 0xFF then h else h + 1) 0 es"

definition extends :: "state \<Rightarrow> state \<Rightarrow> bool" where
  "extends s s' = (\<exists>t. calls s' = calls s @ t \<and> pushback_ok t)"

section \<open>The I/O functions\<close>

lemma get_character_Cons:
  "inp s = b # bs \<Longrightarrow>
   get_character s = (Some b, s\<lparr>inp := bs, calls := calls s @ [Get (Some b)]\<rparr>)"
  by (simp add: get_character_def)

lemma get_character_Nil:
  "inp s = [] \<Longrightarrow> get_character s = (None, s\<lparr>calls := calls s @ [Get None]\<rparr>)"
  by (simp add: get_character_def)

lemma out_get_character: "get_character s = (r, s1) \<Longrightarrow> out s1 = out s"
  by (auto simp: get_character_def split: list.splits)

lemma inp_output_character [simp]: "inp (output_character c s) = inp s"
  by (simp add: output_character_def)

lemma out_output_character [simp]: "out (output_character c s) = out s @ [c]"
  by (simp add: output_character_def)

lemma calls_output_character [simp]: "calls (output_character c s) = calls s"
  by (simp add: output_character_def)

section \<open>Integers: the copy loop\<close>

lemma convert_integer_loop:
  "CHR ''e'' \<notin> set body \<Longrightarrow> inp s = body @ CHR ''e'' # rest \<Longrightarrow> length body < n \<Longrightarrow>
   \<exists>s'. convert_integer n s = Return () s' \<and> inp s' = rest \<and> out s' = out s @ body"
proof (induction body arbitrary: s n)
  case Nil
  then obtain m where n: "n = Suc m" by (cases n) auto
  from Nil show ?case by (simp add: n get_character_Cons)
next
  case (Cons b body)
  then obtain m where n: "n = Suc m" by (cases n) auto
  let ?s1 = "output_character b (s\<lparr>inp := body @ CHR ''e'' # rest, calls := calls s @ [Get (Some b)]\<rparr>)"
  from Cons.prems have b: "b \<noteq> CHR ''e''" by auto
  from Cons.prems have "\<exists>s'. convert_integer m ?s1 = Return () s' \<and> inp s' = rest \<and> out s' = out ?s1 @ body"
    by (intro Cons.IH) (auto simp: n)
  with Cons.prems b show ?case by (simp add: n get_character_Cons)
qed

text \<open>
  C7. Called after the \<open>i\<close> has been read, \<open>convert_integer\<close> copies the bytes that
  follow to the output, unchanged and in order, up to the first \<open>e\<close>; the \<open>e\<close> is read
  and not written, and the input after it is left unread. Any fuel above the number of
  bytes copied is enough. The integer \<^verbatim>\<open>i42e\<close> gives \<^verbatim>\<open>42\<close>.
\<close>

theorem convert_integer_copies:
  assumes "CHR ''e'' \<notin> set body" and "inp s = body @ CHR ''e'' # rest" and "length body < n"
  shows "\<exists>s'. convert_integer n s = Return () s' \<and> inp s' = rest \<and> out s' = out s @ body"
proof -
  from assms obtain s' where "convert_integer n s = Return () s'" and "inp s' = rest"
    and "out s' = out s @ body"
    using convert_integer_loop by blast
  then show ?thesis by blast
qed

theorem convert_integer_copies_witness:
  "CHR ''e'' \<notin> set ''42'' \<and> length ''42'' < (3::nat) \<and>
   (\<exists>s'. convert_integer 3 (stdin ''42e'') = Return () s' \<and> inp s' = [] \<and> out s' = ''42'')"
  using convert_integer_copies [of "''42''" "stdin ''42e''" "[]" 3]
  by (simp add: stdin_def)

section \<open>Strings: the length prefix\<close>

lemma out_read_count_loop: "out (final (read_count_loop buf k s)) = out s"
proof (induction buf k s rule: read_count_loop.induct)
  case (1 lenBuf lenBufLen s)
  obtain r s1 where g: "get_character s = (r, s1)" by (cases "get_character s")
  then have o: "out s1 = out s" by (rule out_get_character)
  show ?case
  proof (cases "to_char r \<noteq> CHR '':'' \<and> \<not> MAX_INT_LEN \<le> Suc lenBufLen \<and>
                 store lenBuf (Suc lenBufLen - 1) (to_char r) \<noteq> None")
    case True
    then obtain buf' where b: "store lenBuf (Suc lenBufLen - 1) (to_char r) = Some buf'" by auto
    have "out (final (read_count_loop buf' (Suc lenBufLen) s1)) = out s1"
      by (rule "1.IH" [OF g [symmetric] refl _ b]) (use True in auto)
    with g o True b show ?thesis by (subst read_count_loop.simps) simp
  next
    case False
    with g o show ?thesis
      by (subst read_count_loop.simps) (auto simp: Let_def split: option.splits)
  qed
qed

lemma out_read_count: "out (final (read_count s)) = out s"
proof -
  have "out (final (read_count_loop (replicate MAX_INT_LEN None) 0 s)) = out s"
    by (rule out_read_count_loop)
  then show ?thesis
    by (auto simp: read_count_def split: outcome.splits option.splits sum.splits prod.splits)
qed

lemma read_count_loop_step:
  "inp s = d # bs \<Longrightarrow> d \<noteq> CHR '':'' \<Longrightarrow> k < length buf \<Longrightarrow>
   read_count_loop buf k s =
     (if MAX_INT_LEN \<le> Suc k
      then Return (buf[k := Some d], Suc k) (s\<lparr>inp := bs, calls := calls s @ [Get (Some d)]\<rparr>)
      else read_count_loop (buf[k := Some d]) (Suc k)
             (s\<lparr>inp := bs, calls := calls s @ [Get (Some d)]\<rparr>))"
  by (subst read_count_loop.simps) (simp add: get_character_Cons store_def)

lemma read_count_loop_stop:
  "inp s = CHR '':'' # bs \<Longrightarrow>
   read_count_loop buf k s =
     Return (buf, k) (s\<lparr>inp := bs, calls := calls s @ [Get (Some (CHR '':''))]\<rparr>)"
  by (subst read_count_loop.simps) (simp add: get_character_Cons)

lemma read_count_loop_prefix:
  "CHR '':'' \<notin> set ds \<Longrightarrow> inp s = ds @ CHR '':'' # rest \<Longrightarrow> length buf = MAX_INT_LEN \<Longrightarrow>
   k + length ds < MAX_INT_LEN \<Longrightarrow>
   \<exists>s'. read_count_loop buf k s =
           Return (take k buf @ map Some ds @ drop (k + length ds) buf, k + length ds) s' \<and>
         inp s' = rest"
proof (induction ds arbitrary: s buf k)
  case Nil
  then show ?case by (simp add: read_count_loop_stop)
next
  case (Cons d ds)
  let ?s1 = "s\<lparr>inp := ds @ CHR '':'' # rest, calls := calls s @ [Get (Some d)]\<rparr>"
  let ?buf = "buf[k := Some d]"
  from Cons.prems have d: "d \<noteq> CHR '':''" and k: "k < length buf" by auto
  have "\<exists>s'. read_count_loop ?buf (Suc k) ?s1 =
           Return (take (Suc k) ?buf @ map Some ds @ drop (Suc k + length ds) ?buf, Suc k + length ds) s' \<and>
         inp s' = rest"
    using Cons.prems by (intro Cons.IH) auto
  moreover have "take (Suc k) ?buf = take k buf @ [Some d]"
    using k by (simp add: take_Suc_conv_app_nth)
  moreover have "drop (Suc k + length ds) ?buf = drop (Suc k + length ds) buf"
    by simp
  moreover have "read_count_loop buf k s = read_count_loop ?buf (Suc k) ?s1"
    using Cons.prems d k by (subst read_count_loop_step [of s d "ds @ CHR '':'' # rest"]) auto
  ultimately show ?case by simp
qed

lemma read_count_loop_full:
  "CHR '':'' \<notin> set ds \<Longrightarrow> inp s = ds @ rest \<Longrightarrow> length buf = MAX_INT_LEN \<Longrightarrow> ds \<noteq> [] \<Longrightarrow>
   k + length ds = MAX_INT_LEN \<Longrightarrow>
   \<exists>s'. read_count_loop buf k s = Return (take k buf @ map Some ds, MAX_INT_LEN) s' \<and>
         inp s' = rest"
proof (induction ds arbitrary: s buf k)
  case Nil
  then show ?case by simp
next
  case (Cons d ds)
  let ?s1 = "s\<lparr>inp := ds @ rest, calls := calls s @ [Get (Some d)]\<rparr>"
  let ?buf = "buf[k := Some d]"
  from Cons.prems have d: "d \<noteq> CHR '':''" and k: "k < length buf" by auto
  have t: "take (Suc k) ?buf = take k buf @ [Some d]"
    using k by (simp add: take_Suc_conv_app_nth)
  have step: "read_count_loop buf k s =
     (if MAX_INT_LEN \<le> Suc k then Return (?buf, Suc k) ?s1
      else read_count_loop ?buf (Suc k) ?s1)"
    using Cons.prems d k by (intro read_count_loop_step) auto
  show ?case
  proof (cases "ds = []")
    case True
    with Cons.prems have "Suc k = length ?buf" by simp
    then have "take (Suc k) ?buf = ?buf" by (metis take_all order_refl)
    with t have "?buf = take k buf @ [Some d]" by simp
    moreover from True Cons.prems have "MAX_INT_LEN \<le> Suc k" "Suc k = MAX_INT_LEN" by auto
    ultimately show ?thesis using True by (simp add: step)
  next
    case False
    have "\<exists>s'. read_count_loop ?buf (Suc k) ?s1 =
           Return (take (Suc k) ?buf @ map Some ds, MAX_INT_LEN) s' \<and> inp s' = rest"
      using Cons.prems False by (intro Cons.IH) auto
    moreover from False Cons.prems have "\<not> MAX_INT_LEN \<le> Suc k" by (cases ds) auto
    ultimately show ?thesis using t by (simp add: step)
  qed
qed

lemma c_string_terminated:
  "c_string (map Some ds @ Some (CHR 0x00) # cells) = Inr (takeWhile (\<lambda>c. c \<noteq> CHR 0x00) ds)"
  by (induction ds) auto

lemma isdigit_not_space: "isdigit c \<Longrightarrow> \<not> isspace c \<and> c \<noteq> CHR ''-'' \<and> c \<noteq> CHR ''+''"
  by (auto simp: isdigit_def isspace_def)

lemma isdigit_not_special: "isdigit c \<Longrightarrow> c \<noteq> CHR '':'' \<and> c \<noteq> CHR 0x00 \<and> c \<noteq> CHR 0xFF"
  by (auto simp: isdigit_def)

lemma atoi_digits:
  assumes "\<forall>c\<in>set ds. isdigit c"
  shows "atoi ds = (if int (digits_value ds) \<le> INT_MAX then Some (int (digits_value ds)) else None)"
proof -
  have t: "takeWhile isdigit ds = ds" using assms by (simp add: takeWhile_eq_all_conv)
  have i: "INT_MIN \<le> int (digits_value ds)" by (simp add: INT_MIN_def)
  show ?thesis
  proof (cases ds)
    case Nil
    then show ?thesis by (simp add: atoi_def digits_value_def INT_MIN_def INT_MAX_def)
  next
    case (Cons d ds')
    with assms have "isdigit d" by simp
    then have d: "\<not> isspace d" "d \<noteq> CHR ''-''" "d \<noteq> CHR ''+''"
      using isdigit_not_space by blast+
    from d(1) Cons have "dropWhile isspace ds = ds" by simp
    with d t i Cons show ?thesis by (simp add: atoi_def Let_def)
  qed
qed

lemma to_size_t_nat: "n < 2 ^ 64 \<Longrightarrow> to_size_t (int n) = n"
  by (simp add: to_size_t_def nat_mod_distrib flip: of_nat_power of_nat_mod)

lemma read_count_prefix:
  assumes "CHR '':'' \<notin> set ds" and "length ds < MAX_INT_LEN" and "inp s = ds @ CHR '':'' # rest"
  shows "\<exists>s'. inp s' = rest \<and> out s' = out s \<and>
           read_count s =
             (case atoi (takeWhile (\<lambda>c. c \<noteq> CHR 0x00) ds) of
                None \<Rightarrow> Stop IntOverflow s'
              | Some i \<Rightarrow> Return (to_size_t i) s')"
proof -
  let ?buf = "replicate MAX_INT_LEN (None :: char option)"
  from assms obtain s' where
    loop: "read_count_loop ?buf 0 s =
             Return (take 0 ?buf @ map Some ds @ drop (0 + length ds) ?buf, 0 + length ds) s'"
    and inp: "inp s' = rest"
    using read_count_loop_prefix [of ds s rest ?buf 0] by auto
  obtain m where m: "MAX_INT_LEN - length ds = Suc m"
    using assms(2) by (cases "MAX_INT_LEN - length ds") auto
  have buf: "take 0 ?buf @ map Some ds @ drop (0 + length ds) ?buf = map Some ds @ None # replicate m None"
    by (simp add: m)
  have st: "store (map Some ds @ None # replicate m None) (length ds) (CHR 0x00) =
              Some (map Some ds @ Some (CHR 0x00) # replicate m None)"
    by (simp add: store_def list_update_append)
  have rc: "read_count s =
             (case atoi (takeWhile (\<lambda>c. c \<noteq> CHR 0x00) ds) of
                None \<Rightarrow> Stop IntOverflow s'
              | Some i \<Rightarrow> Return (to_size_t i) s')"
    unfolding read_count_def loop buf by (simp add: st c_string_terminated)
  have "out (final (read_count s)) = out s" by (rule out_read_count)
  with rc have "out s' = out s" by (simp split: option.splits)
  with inp rc show ?thesis by blast
qed

lemma read_count_digits:
  assumes "\<forall>c\<in>set ds. isdigit c" and "length ds < MAX_INT_LEN"
    and "int (digits_value ds) \<le> INT_MAX" and "inp s = ds @ CHR '':'' # rest"
  shows "\<exists>s'. read_count s = Return (digits_value ds) s' \<and> inp s' = rest \<and> out s' = out s"
proof -
  from assms(1) have c: "CHR '':'' \<notin> set ds" and z: "\<forall>c\<in>set ds. c \<noteq> CHR 0x00"
    using isdigit_not_special by blast+
  from z have t: "takeWhile (\<lambda>c. c \<noteq> CHR 0x00) ds = ds" by (simp add: takeWhile_eq_all_conv)
  from assms(3) have "digits_value ds < 2 ^ 64" by (simp add: INT_MAX_def)
  then have "to_size_t (int (digits_value ds)) = digits_value ds" by (rule to_size_t_nat)
  with read_count_prefix [OF c assms(2) assms(4)] assms(1,3) t show ?thesis
    by (auto simp: atoi_digits)
qed

lemma read_count_full:
  assumes "CHR '':'' \<notin> set ds" and "length ds = MAX_INT_LEN" and "inp s = ds @ rest"
  shows "\<exists>s'. read_count s = Stop OutOfBounds s' \<and> inp s' = rest"
proof -
  let ?buf = "replicate MAX_INT_LEN (None :: char option)"
  from assms have "ds \<noteq> []" by (auto simp: MAX_INT_LEN_def)
  with assms obtain s' where
    loop: "read_count_loop ?buf 0 s = Return (take 0 ?buf @ map Some ds, MAX_INT_LEN) s'"
    and inp: "inp s' = rest"
    using read_count_loop_full [of ds s rest ?buf 0] by auto
  have "store (take 0 ?buf @ map Some ds) MAX_INT_LEN (CHR 0x00) = None"
    using assms(2) by (simp add: store_def)
  with loop have "read_count s = Stop OutOfBounds s'" by (simp add: read_count_def)
  with inp show ?thesis by blast
qed

text \<open>
  C10. When at most 49 bytes other than \<open>:\<close> come before the \<open>:\<close>, every write into
  \<open>lenBuf\<close> is in bounds: the loop leaves \<open>lenBufLen\<close> at the number of those bytes,
  below the 50 cells of the buffer, so that the store of the null byte at index
  \<open>lenBufLen\<close> succeeds, and \<open>read_count\<close> does not stop with \<open>OutOfBounds\<close>.
\<close>

theorem read_count_writes_in_bounds:
  assumes "CHR '':'' \<notin> set ds" and "length ds \<le> 49" and "inp s = ds @ CHR '':'' # rest"
  shows "(\<exists>buf s1. read_count_loop (replicate MAX_INT_LEN None) 0 s = Return (buf, length ds) s1 \<and>
                  length buf = MAX_INT_LEN \<and> store buf (length ds) (CHR 0x00) \<noteq> None) \<and>
         (\<forall>s'. read_count s \<noteq> Stop OutOfBounds s')"
proof -
  let ?buf = "replicate MAX_INT_LEN (None :: char option)"
  from assms(2) have l: "length ds < MAX_INT_LEN" by (simp add: MAX_INT_LEN_def)
  with assms obtain s1 where
    "read_count_loop ?buf 0 s =
       Return (take 0 ?buf @ map Some ds @ drop (0 + length ds) ?buf, 0 + length ds) s1"
    using read_count_loop_prefix [of ds s rest ?buf 0] by auto
  moreover have "length (take 0 ?buf @ map Some ds @ drop (0 + length ds) ?buf) = MAX_INT_LEN"
    using l by simp
  ultimately have a: "\<exists>buf s1. read_count_loop ?buf 0 s = Return (buf, length ds) s1 \<and>
      length buf = MAX_INT_LEN \<and> store buf (length ds) (CHR 0x00) \<noteq> None"
    using l by (auto simp: store_def)
  from read_count_prefix [OF assms(1) l assms(3)]
  have "\<forall>s'. read_count s \<noteq> Stop OutOfBounds s'"
    by (auto split: option.splits)
  with a show ?thesis by blast
qed

text \<open>A prefix of 49 digits: the null byte goes to the last cell, index 49.\<close>

theorem read_count_writes_in_bounds_witness:
  "CHR '':'' \<notin> set (replicate 49 (CHR ''7'')) \<and> length (replicate 49 (CHR ''7'')) \<le> 49 \<and>
   (\<exists>buf s1. read_count_loop (replicate MAX_INT_LEN None) 0
                (stdin (replicate 49 (CHR ''7'') @ '':ab'')) = Return (buf, 49) s1 \<and>
              length buf = MAX_INT_LEN \<and> store buf 49 (CHR 0x00) \<noteq> None) \<and>
   (\<forall>s'. read_count (stdin (replicate 49 (CHR ''7'') @ '':ab'')) \<noteq> Stop OutOfBounds s')"
  using read_count_writes_in_bounds
    [of "replicate 49 (CHR ''7'')" "stdin (replicate 49 (CHR ''7'') @ '':ab'')" "''ab''"]
  by (simp add: stdin_def)

text \<open>
  C1, as amended. Once 50 bytes other than \<open>:\<close> have been accumulated, \<open>read_count\<close>
  reads no further: whatever follows those 50 bytes, a \<open>:\<close> included, is left unread.
  For a prefix of at most 49 digits followed by \<open>:\<close>, whose decimal value is at most
  \<open>INT_MAX\<close>, it reads the digits and the \<open>:\<close> and returns the decimal value of the
  digits.
\<close>

theorem read_count_stops_at_limit:
  "(CHR '':'' \<notin> set ds \<and> length ds = MAX_INT_LEN \<and> inp s = ds @ rest \<longrightarrow>
      inp (final (read_count s)) = rest) \<and>
   ((\<forall>c\<in>set ds. isdigit c) \<and> length ds \<le> 49 \<and> int (digits_value ds) \<le> INT_MAX \<and>
    inp s = ds @ CHR '':'' # rest \<longrightarrow>
      (\<exists>s'. read_count s = Return (digits_value ds) s' \<and> inp s' = rest \<and> out s' = out s))"
proof (intro conjI impI)
  assume "CHR '':'' \<notin> set ds \<and> length ds = MAX_INT_LEN \<and> inp s = ds @ rest"
  then show "inp (final (read_count s)) = rest"
    using read_count_full [of ds s rest] by auto
next
  assume a: "(\<forall>c\<in>set ds. isdigit c) \<and> length ds \<le> 49 \<and> int (digits_value ds) \<le> INT_MAX \<and>
    inp s = ds @ CHR '':'' # rest"
  then have "length ds < MAX_INT_LEN" by (simp add: MAX_INT_LEN_def)
  with a show "\<exists>s'. read_count s = Return (digits_value ds) s' \<and> inp s' = rest \<and> out s' = out s"
    using read_count_digits [of ds s rest] by auto
qed

text \<open>Fifty digits before the \<open>:\<close>, and the largest prefix \<open>atoi\<close> can represent.\<close>

theorem read_count_stops_at_limit_witness:
  "inp (final (read_count (stdin (replicate 50 (CHR ''7'') @ '':xy'')))) = '':xy'' \<and>
   (\<exists>s'. read_count (stdin ''2147483647:xy'') = Return 2147483647 s' \<and> inp s' = ''xy'' \<and> out s' = [])"
proof -
  have "inp (final (read_count (stdin (replicate 50 (CHR ''7'') @ '':xy'')))) = '':xy''"
    using read_count_stops_at_limit
      [of "replicate 50 (CHR ''7'')" "stdin (replicate 50 (CHR ''7'') @ '':xy'')" "'':xy''"]
    by (simp add: stdin_def MAX_INT_LEN_def)
  moreover have "\<exists>s'. read_count (stdin ''2147483647:xy'') = Return 2147483647 s' \<and> inp s' = ''xy'' \<and> out s' = []"
    using read_count_stops_at_limit [of "''2147483647''" "stdin ''2147483647:xy''" "''xy''"]
    by (simp add: stdin_def isdigit_def digits_value_def digit_value_def INT_MAX_def)
  ultimately show ?thesis by blast
qed

text \<open>
  C1 as stated fails twice. After 50 digits the \<open>:\<close> is not consumed: it is the next byte
  to read when \<open>read_count\<close> is done. And the ten digits \<^verbatim>\<open>2147483648\<close> followed
  by \<open>:\<close> do not give the count 2147483648, which no int holds.
\<close>

theorem read_count_counterexample:
  "inp (final (read_count (stdin (replicate 50 (CHR ''7'') @ '':xy'')))) = '':xy'' \<and>
   returned (read_count (stdin ''2147483648:xy'')) \<noteq> Some 2147483648"
proof -
  have "inp (final (read_count (stdin (replicate 50 (CHR ''7'') @ '':xy'')))) = '':xy''"
    using read_count_full
      [of "replicate 50 (CHR ''7'')" "stdin (replicate 50 (CHR ''7'') @ '':xy'')" "'':xy''"]
    by (auto simp add: stdin_def MAX_INT_LEN_def)
  moreover have "returned (read_count (stdin ''2147483648:xy'')) \<noteq> Some 2147483648"
    using read_count_prefix [of "''2147483648''" "stdin ''2147483648:xy''" "''xy''"]
    by (auto simp add: stdin_def MAX_INT_LEN_def atoi_def isdigit_def isspace_def
        digits_value_def digit_value_def INT_MAX_def INT_MIN_def)
  ultimately show ?thesis by blast
qed

section \<open>Strings: the payload\<close>

text \<open>
  What \<open>sprintf_02x\<close> gives is the value of the byte in two lowercase hexadecimal
  digits.
\<close>

lemma hex_digit_value:
  "d < 16 \<Longrightarrow> hex_digit d \<in> set ''0123456789abcdef'' \<and> hex_value (hex_digit d) = d"
proof -
  assume "d < 16"
  then have "d = 0 \<or> d = 1 \<or> d = 2 \<or> d = 3 \<or> d = 4 \<or> d = 5 \<or> d = 6 \<or> d = 7 \<or> d = 8 \<or> d = 9 \<or>
             d = 10 \<or> d = 11 \<or> d = 12 \<or> d = 13 \<or> d = 14 \<or> d = 15"
    by arith
  then show ?thesis
    by (elim disjE) (simp_all add: hex_digit_def hex_value_def isdigit_def)
qed

lemma sprintf_02x_value:
  "length (sprintf_02x c) = 2 \<and> set (sprintf_02x c) \<subseteq> set ''0123456789abcdef'' \<and>
   16 * hex_value (sprintf_02x c ! 0) + hex_value (sprintf_02x c ! 1) = of_char c"
proof -
  have "(of_char c :: nat) < 256" by simp
  then have h: "(of_char c :: nat) div 16 < 16" by (simp add: less_mult_imp_div_less)
  have l: "(of_char c :: nat) mod 16 < 16" by simp
  from hex_digit_value [OF h] hex_digit_value [OF l] show ?thesis
    by (simp add: sprintf_02x_def)
qed

lemma convert_char_Cons:
  "inp s = b # bs \<Longrightarrow>
   inp (convert_char s) = bs \<and> out (convert_char s) = out s @ json_escape b"
  by (simp add: convert_char_def get_character_Cons json_escape_def sprintf_02x_def)

lemma convert_chars_payload:
  "inp s = payload @ rest \<Longrightarrow>
   inp (convert_chars (length payload) s) = rest \<and>
   out (convert_chars (length payload) s) = out s @ concat (map json_escape payload)"
proof (induction payload arbitrary: s)
  case Nil
  then show ?case by simp
next
  case (Cons b payload)
  then have "inp (convert_char s) = payload @ rest" "out (convert_char s) = out s @ json_escape b"
    using convert_char_Cons [of s b "payload @ rest"] by auto
  with Cons.IH [of "convert_char s"] show ?case by simp
qed

lemma convert_string_payload:
  assumes "read_count s = Return n s1" and "inp s1 = payload @ rest" and "length payload = n"
  shows "\<exists>s'. convert_string s = Return () s' \<and> inp s' = rest \<and>
              out s' = out s @ [CHR 0x22] @ concat (map json_escape payload) @ [CHR 0x22]"
proof -
  let ?s2 = "output_character (CHR 0x22) s1"
  have "out (final (read_count s)) = out s" by (rule out_read_count)
  with assms(1) have o: "out ?s2 = out s @ [CHR 0x22]" by simp
  from assms(2) have "inp ?s2 = payload @ rest" by simp
  then have "inp (convert_chars (length payload) ?s2) = rest"
    "out (convert_chars (length payload) ?s2) = out ?s2 @ concat (map json_escape payload)"
    using convert_chars_payload by blast+
  with assms o show ?thesis by (simp add: convert_string_def)
qed

text \<open>
  C2. When \<open>read_count\<close> returns \<open>n\<close> and \<open>n\<close> bytes of payload follow,
  \<open>convert_string\<close> reads exactly those \<open>n\<close> bytes and writes a double quote, for each
  byte in order its text \<open>json_escape\<close>, and a double quote.
\<close>

theorem convert_string_escapes:
  assumes "read_count s = Return n s1" and "inp s1 = payload @ rest" and "length payload = n"
  shows "\<exists>s'. convert_string s = Return () s' \<and> inp s' = rest \<and>
              out s' = out s @ [CHR 0x22] @ concat (map json_escape payload) @ [CHR 0x22]"
proof -
  from assms obtain s' where "convert_string s = Return () s'" and "inp s' = rest"
    and "out s' = out s @ [CHR 0x22] @ concat (map json_escape payload) @ [CHR 0x22]"
    using convert_string_payload by blast
  then show ?thesis by blast
qed

text \<open>
  The payload 0x01, double quote, \<open>a\<close>, 0xE9 gives \<^verbatim>\<open>"\u0001\"a\u00e9"\<close>.
\<close>

theorem convert_string_escapes_witness:
  "read_count (stdin [CHR ''4'', CHR '':'', CHR 0x01, CHR 0x22, CHR ''a'', CHR 0xE9, CHR ''z'']) =
     Return 4 \<lparr>inp = [CHR 0x01, CHR 0x22, CHR ''a'', CHR 0xE9] @ ''z'', out = [],
               calls = [Get (Some (CHR ''4'')), Get (Some (CHR '':''))]\<rparr> \<and>
   (\<exists>s'. convert_string (stdin [CHR ''4'', CHR '':'', CHR 0x01, CHR 0x22, CHR ''a'', CHR 0xE9, CHR ''z'']) =
            Return () s' \<and> inp s' = ''z'' \<and>
          out s' = [CHR 0x22, CHR 0x5C, CHR ''u'', CHR ''0'', CHR ''0'', CHR ''0'', CHR ''1'',
                    CHR 0x5C, CHR 0x22, CHR ''a'',
                    CHR 0x5C, CHR ''u'', CHR ''0'', CHR ''0'', CHR ''e'', CHR ''9'', CHR 0x22])"
proof -
  let ?s = "stdin [CHR ''4'', CHR '':'', CHR 0x01, CHR 0x22, CHR ''a'', CHR 0xE9, CHR ''z'']"
  let ?s1 = "\<lparr>inp = [CHR 0x01, CHR 0x22, CHR ''a'', CHR 0xE9] @ ''z'', out = [],
               calls = [Get (Some (CHR ''4'')), Get (Some (CHR '':''))]\<rparr>"
  have r: "read_count ?s = Return 4 ?s1"
    by code_simp
  show ?thesis
    using r convert_string_escapes [OF r, of "[CHR 0x01, CHR 0x22, CHR ''a'', CHR 0xE9]" "''z''"]
    by (simp add: stdin_def json_escape_def isalnum_def ispunct_def sprintf_02x_def hex_digit_def)
qed

section \<open>Decimal numerals\<close>

lemma digit_char_digit: "d < 10 \<Longrightarrow> isdigit (digit_char d) \<and> digit_value (digit_char d) = d"
proof -
  assume "d < 10"
  then have "d = 0 \<or> d = 1 \<or> d = 2 \<or> d = 3 \<or> d = 4 \<or> d = 5 \<or> d = 6 \<or> d = 7 \<or> d = 8 \<or> d = 9"
    by arith
  then show ?thesis
    by (elim disjE) (simp_all add: digit_char_def isdigit_def digit_value_def)
qed

lemma decimal_not_Nil: "decimal n \<noteq> []"
  by (subst decimal.simps) simp

lemma decimal_digits: "\<forall>c\<in>set (decimal n). isdigit c"
proof (induction n rule: decimal.induct)
  case (1 n)
  show ?case
  proof (cases "n < 10")
    case True
    then show ?thesis by (subst decimal.simps) (simp add: digit_char_digit)
  next
    case False
    with 1 show ?thesis by (subst decimal.simps) (simp add: digit_char_digit)
  qed
qed

lemma digits_value_snoc: "digits_value (ds @ [d]) = 10 * digits_value ds + digit_value d"
  by (simp add: digits_value_def)

lemma digits_value_decimal: "digits_value (decimal n) = n"
proof (induction n rule: decimal.induct)
  case (1 n)
  show ?case
  proof (cases "n < 10")
    case True
    then show ?thesis
      by (subst decimal.simps) (simp add: digits_value_def digit_char_digit)
  next
    case False
    with 1 have "digits_value (decimal (n div 10)) = n div 10" by simp
    with False show ?thesis
      by (subst decimal.simps) (simp add: digits_value_snoc digit_char_digit)
  qed
qed

lemma length_decimal: "n < 10 ^ k \<Longrightarrow> 0 < k \<Longrightarrow> length (decimal n) \<le> k"
proof (induction n arbitrary: k rule: decimal.induct)
  case (1 n)
  show ?case
  proof (cases "n < 10")
    case True
    with 1 show ?thesis by (subst decimal.simps) simp
  next
    case False
    from "1.prems" obtain j where k: "k = Suc j" by (cases k) auto
    with False "1.prems" have j: "0 < j" by (cases j) auto
    from "1.prems" k have "n div 10 < 10 ^ j"
      by (simp add: less_mult_imp_div_less mult.commute)
    with "1.IH" False j have "length (decimal (n div 10)) \<le> j" by simp
    with False k show ?thesis by (subst decimal.simps) simp
  qed
qed

section \<open>One step of the dispatcher and of the loops\<close>

lemma unget_after_get:
  "inp s = c # cs \<Longrightarrow> c \<noteq> CHR 0xFF \<Longrightarrow>
   unget_character c (s\<lparr>inp := cs, calls := calls s @ [Get (Some c)]\<rparr>) =
     s\<lparr>calls := calls s @ [Get (Some c), Unget c]\<rparr>"
  by (simp add: unget_character_def)

lemma convert_value_i:
  "inp s = CHR ''i'' # cs \<Longrightarrow>
   convert_value (Suc n) s =
     convert_integer n (s\<lparr>inp := cs, calls := calls s @ [Get (Some (CHR ''i''))]\<rparr>)"
  by (simp add: get_character_Cons)

lemma convert_value_l:
  "inp s = CHR ''l'' # cs \<Longrightarrow>
   convert_value (Suc n) s =
     convert_list n (s\<lparr>inp := cs, calls := calls s @ [Get (Some (CHR ''l''))]\<rparr>)"
  by (simp add: get_character_Cons)

lemma convert_value_d:
  "inp s = CHR ''d'' # cs \<Longrightarrow>
   convert_value (Suc n) s =
     convert_dictionary n (s\<lparr>inp := cs, calls := calls s @ [Get (Some (CHR ''d''))]\<rparr>)"
  by (simp add: get_character_Cons)

lemma convert_value_other:
  "inp s = c # cs \<Longrightarrow> c \<noteq> CHR ''i'' \<Longrightarrow> c \<noteq> CHR ''l'' \<Longrightarrow> c \<noteq> CHR ''d'' \<Longrightarrow>
   c \<noteq> CHR 0xFF \<Longrightarrow>
   convert_value (Suc n) s = convert_string (s\<lparr>calls := calls s @ [Get (Some c), Unget c]\<rparr>)"
  by (simp add: get_character_Cons unget_after_get)

lemma convert_list_loop_e:
  "inp s = CHR ''e'' # cs \<Longrightarrow>
   convert_list_loop (Suc n) flag s =
     Return () (s\<lparr>inp := cs, calls := calls s @ [Get (Some (CHR ''e''))]\<rparr>)"
  by (simp add: get_character_Cons)

lemma convert_list_loop_item:
  "inp s = c # cs \<Longrightarrow> c \<noteq> CHR ''e'' \<Longrightarrow> c \<noteq> CHR 0xFF \<Longrightarrow>
   convert_list_loop (Suc n) flag s =
     (case convert_value n
             (if flag
              then output_character (CHR '','') (s\<lparr>calls := calls s @ [Get (Some c), Unget c]\<rparr>)
              else s\<lparr>calls := calls s @ [Get (Some c), Unget c]\<rparr>) of
        Stop e s4 \<Rightarrow> Stop e s4
      | Return _ s4 \<Rightarrow> convert_list_loop n True s4)"
  by (simp add: get_character_Cons unget_after_get Let_def)

lemma convert_dictionary_loop_e:
  "inp s = CHR ''e'' # cs \<Longrightarrow>
   convert_dictionary_loop (Suc n) flag s =
     Return () (s\<lparr>inp := cs, calls := calls s @ [Get (Some (CHR ''e''))]\<rparr>)"
  by (simp add: get_character_Cons)

lemma convert_dictionary_loop_item:
  "inp s = c # cs \<Longrightarrow> c \<noteq> CHR ''e'' \<Longrightarrow> c \<noteq> CHR 0xFF \<Longrightarrow>
   convert_dictionary_loop (Suc n) flag s =
     (case convert_value n
             (if flag
              then output_character (CHR '','') (s\<lparr>calls := calls s @ [Get (Some c), Unget c]\<rparr>)
              else s\<lparr>calls := calls s @ [Get (Some c), Unget c]\<rparr>) of
        Stop e s4 \<Rightarrow> Stop e s4
      | Return _ s4 \<Rightarrow>
          (case convert_value n (output_character (CHR '':'') s4) of
             Stop e s5 \<Rightarrow> Stop e s5
           | Return _ s5 \<Rightarrow> convert_dictionary_loop n True s5))"
  by (simp add: get_character_Cons unget_after_get Let_def)

section \<open>Well-formed strings and integers\<close>

lemma isdigit_not_tag:
  "isdigit c \<Longrightarrow> c \<noteq> CHR ''i'' \<and> c \<noteq> CHR ''l'' \<and> c \<noteq> CHR ''d'' \<and> c \<noteq> CHR ''e''"
  by (auto simp: isdigit_def)

lemma decimal_Cons: "\<exists>c cs. decimal n = c # cs \<and> isdigit c"
  using decimal_not_Nil [of n] decimal_digits [of n] by (cases "decimal n") auto

lemma convert_string_encode:
  assumes "int (length bs) \<le> INT_MAX" and "inp s = encode_string bs @ rest"
  shows "\<exists>s'. convert_string s = Return () s' \<and> inp s' = rest \<and>
              out s' = out s @ json_string bs"
proof -
  let ?ds = "decimal (length bs)"
  from assms(1) have "length bs < 10 ^ 10" by (simp add: INT_MAX_def)
  then have "length ?ds \<le> 10" by (rule length_decimal) simp
  then have l: "length ?ds < MAX_INT_LEN" by (simp add: MAX_INT_LEN_def)
  have v: "digits_value ?ds = length bs" by (rule digits_value_decimal)
  from assms(2) have i: "inp s = ?ds @ CHR '':'' # (bs @ rest)" by (simp add: encode_string_def)
  from assms(1) v have "int (digits_value ?ds) \<le> INT_MAX" by simp
  with read_count_digits [OF decimal_digits l _ i] v
  obtain s1 where r: "read_count s = Return (length bs) s1" and "inp s1 = bs @ rest"
    by auto
  with convert_string_payload [OF r, of bs rest] show ?thesis
    by (simp add: json_string_def)
qed

lemma convert_value_string:
  assumes "int (length bs) \<le> INT_MAX" and "inp s = encode_string bs @ rest" and "0 < n"
  shows "\<exists>s'. convert_value n s = Return () s' \<and> inp s' = rest \<and>
              out s' = out s @ json_string bs"
proof -
  from assms(3) obtain m where n: "n = Suc m" by (cases n) auto
  obtain c cs where d: "decimal (length bs) = c # cs" and c: "isdigit c"
    using decimal_Cons by blast
  with assms(2) have i: "inp s = c # (cs @ CHR '':'' # bs @ rest)"
    by (simp add: encode_string_def)
  let ?s2 = "s\<lparr>calls := calls s @ [Get (Some c), Unget c]\<rparr>"
  from c have "c \<noteq> CHR ''i''" "c \<noteq> CHR ''l''" "c \<noteq> CHR ''d''" "c \<noteq> CHR 0xFF"
    using isdigit_not_tag isdigit_not_special by blast+
  with i have "convert_value n s = convert_string ?s2"
    unfolding n by (rule convert_value_other)
  moreover from assms(2) have "inp ?s2 = encode_string bs @ rest" by simp
  from convert_string_encode [OF assms(1) this]
  have "\<exists>s'. convert_string ?s2 = Return () s' \<and> inp s' = rest \<and> out s' = out s @ json_string bs"
    by simp
  ultimately show ?thesis by simp
qed

lemma decimal_no_e: "CHR ''e'' \<notin> set (decimal m)"
  using decimal_digits [of m] isdigit_not_tag by blast

lemma show_int_no_e: "CHR ''e'' \<notin> set (show_int k)"
  by (simp add: show_int_def decimal_no_e)

lemma convert_value_integer:
  assumes "inp s = CHR ''i'' # show_int k @ CHR ''e'' # rest" and "2 + length (show_int k) \<le> n"
  shows "\<exists>s'. convert_value n s = Return () s' \<and> inp s' = rest \<and> out s' = out s @ show_int k"
proof -
  from assms(2) obtain m where n: "n = Suc m" by (cases n) auto
  let ?s1 = "s\<lparr>inp := show_int k @ CHR ''e'' # rest, calls := calls s @ [Get (Some (CHR ''i''))]\<rparr>"
  from assms(1) have "convert_value n s = convert_integer m ?s1"
    unfolding n by (rule convert_value_i)
  moreover have "\<exists>s'. convert_integer m ?s1 = Return () s' \<and> inp s' = rest \<and> out s' = out ?s1 @ show_int k"
    using assms(2) n by (intro convert_integer_loop show_int_no_e) auto
  ultimately show ?thesis by simp
qed

lemma encode_string_first: "\<exists>c cs. encode_string k = c # cs \<and> c \<noteq> CHR ''e'' \<and> c \<noteq> CHR 0xFF"
proof -
  obtain c cs where "decimal (length k) = c # cs" "isdigit c" using decimal_Cons by blast
  moreover from this have "c \<noteq> CHR ''e''" "c \<noteq> CHR 0xFF"
    using isdigit_not_tag isdigit_not_special by blast+
  ultimately show ?thesis by (simp add: encode_string_def)
qed

lemma encode_first: "\<exists>c cs. encode v = c # cs \<and> c \<noteq> CHR ''e'' \<and> c \<noteq> CHR 0xFF"
proof (cases v)
  case (BString bs)
  with encode_string_first [of bs] show ?thesis by simp
qed simp_all

section \<open>Well-formed values\<close>

lemma convert_list_loop_items:
  assumes "\<And>v n s rest. v \<in> set vs \<Longrightarrow> enough v \<le> n \<Longrightarrow> inp s = encode v @ rest \<Longrightarrow>
             \<exists>s'. convert_value n s = Return () s' \<and> inp s' = rest \<and> out s' = out s @ json v"
    and "length vs + sum_list (map enough vs) < n"
    and "inp s = concat (map encode vs) @ CHR ''e'' # rest"
  shows "\<exists>s'. convert_list_loop n flag s = Return () s' \<and> inp s' = rest \<and>
              out s' = out s @ (if flag then concat (map (\<lambda>v. CHR '','' # json v) vs)
                                else join (map json vs))"
  using assms
proof (induction vs arbitrary: n s flag)
  case Nil
  then obtain m where n: "n = Suc m" by (cases n) auto
  from Nil have "convert_list_loop n flag s =
      Return () (s\<lparr>inp := rest, calls := calls s @ [Get (Some (CHR ''e''))]\<rparr>)"
    unfolding n by (intro convert_list_loop_e) simp
  then show ?case by simp
next
  case (Cons v vs)
  from Cons.prems(2) obtain m where n: "n = Suc m" by (cases n) auto
  obtain c cs where e: "encode v = c # cs" and c: "c \<noteq> CHR ''e''" "c \<noteq> CHR 0xFF"
    using encode_first by blast
  let ?rest = "concat (map encode vs) @ CHR ''e'' # rest"
  let ?s2 = "s\<lparr>calls := calls s @ [Get (Some c), Unget c]\<rparr>"
  let ?s3 = "if flag then output_character (CHR '','') ?s2 else ?s2"
  from Cons.prems(3) e have i: "inp s = c # (cs @ ?rest)" by simp
  have step: "convert_list_loop n flag s =
     (case convert_value m ?s3 of
        Stop e s4 \<Rightarrow> Stop e s4
      | Return _ s4 \<Rightarrow> convert_list_loop m True s4)"
    unfolding n using i c by (rule convert_list_loop_item)
  from Cons.prems(3) have i3: "inp ?s3 = encode v @ ?rest" by simp
  from Cons.prems(2) n have "enough v \<le> m" by simp
  with Cons.prems(1) [of v m ?s3 ?rest] i3
  obtain s4 where v: "convert_value m ?s3 = Return () s4" and i4: "inp s4 = ?rest"
    and o4: "out s4 = out ?s3 @ json v" by auto
  from Cons.prems(2) n have "length vs + sum_list (map enough vs) < m" by simp
  then have b: "length vs + sum_list (map enough vs) < m" .
  have "\<exists>s'. convert_list_loop m True s4 = Return () s' \<and> inp s' = rest \<and>
              out s' = out s4 @ (if True then concat (map (\<lambda>v. CHR '','' # json v) vs)
                                 else join (map json vs))"
  proof (rule Cons.IH)
    fix v n and s :: state and rest
    assume "v \<in> set vs" "enough v \<le> n" "inp s = encode v @ rest"
    then show "\<exists>s'. convert_value n s = Return () s' \<and> inp s' = rest \<and> out s' = out s @ json v"
      using Cons.prems(1) [of v n s rest] by simp
  next
    show "length vs + sum_list (map enough vs) < m" by (rule b)
  next
    show "inp s4 = ?rest" by (rule i4)
  qed
  then obtain s' where "convert_list_loop m True s4 = Return () s'" and "inp s' = rest"
    and "out s' = out s4 @ concat (map (\<lambda>v. CHR '','' # json v) vs)" by auto
  with step v o4 show ?case by (simp add: comp_def)
qed

lemma convert_dictionary_loop_items:
  assumes "\<And>v n s rest. v \<in> snd ` set kvs \<Longrightarrow> enough v \<le> n \<Longrightarrow> inp s = encode v @ rest \<Longrightarrow>
             \<exists>s'. convert_value n s = Return () s' \<and> inp s' = rest \<and> out s' = out s @ json v"
    and "\<forall>(k, v)\<in>set kvs. int (length k) \<le> INT_MAX"
    and "length kvs + sum_list (map (\<lambda>(k, v). enough v) kvs) < n"
    and "inp s = concat (map (\<lambda>(k, v). encode_string k @ encode v) kvs) @ CHR ''e'' # rest"
  shows "\<exists>s'. convert_dictionary_loop n flag s = Return () s' \<and> inp s' = rest \<and>
              out s' = out s @
                (if flag
                 then concat (map (\<lambda>(k, v). CHR '','' # json_string k @ CHR '':'' # json v) kvs)
                 else join (map (\<lambda>(k, v). json_string k @ CHR '':'' # json v) kvs))"
  using assms
proof (induction kvs arbitrary: n s flag)
  case Nil
  then obtain m where n: "n = Suc m" by (cases n) auto
  from Nil have "convert_dictionary_loop n flag s =
      Return () (s\<lparr>inp := rest, calls := calls s @ [Get (Some (CHR ''e''))]\<rparr>)"
    unfolding n by (intro convert_dictionary_loop_e) simp
  then show ?case by simp
next
  case (Cons kv kvs)
  obtain k v where kv: "kv = (k, v)" by (cases kv)
  from Cons.prems(3) obtain m where n: "n = Suc m" by (cases n) auto
  obtain c cs where e: "encode_string k = c # cs" and c: "c \<noteq> CHR ''e''" "c \<noteq> CHR 0xFF"
    using encode_string_first by blast
  let ?rest = "concat (map (\<lambda>(k, v). encode_string k @ encode v) kvs) @ CHR ''e'' # rest"
  let ?s2 = "s\<lparr>calls := calls s @ [Get (Some c), Unget c]\<rparr>"
  let ?s3 = "if flag then output_character (CHR '','') ?s2 else ?s2"
  from Cons.prems(4) e kv have i: "inp s = c # (cs @ encode v @ ?rest)" by simp
  have step: "convert_dictionary_loop n flag s =
     (case convert_value m ?s3 of
        Stop e s4 \<Rightarrow> Stop e s4
      | Return _ s4 \<Rightarrow>
          (case convert_value m (output_character (CHR '':'') s4) of
             Stop e s5 \<Rightarrow> Stop e s5
           | Return _ s5 \<Rightarrow> convert_dictionary_loop m True s5))"
    unfolding n using i c by (rule convert_dictionary_loop_item)
  from Cons.prems(4) kv have i3: "inp ?s3 = encode_string k @ (encode v @ ?rest)" by simp
  from Cons.prems(2) kv have lk: "int (length k) \<le> INT_MAX" by simp
  from Cons.prems(3) n kv have m: "0 < m" "enough v \<le> m"
    "length kvs + sum_list (map (\<lambda>(k, v). enough v) kvs) < m" by simp_all
  from convert_value_string [OF lk i3 m(1)]
  obtain s4 where k4: "convert_value m ?s3 = Return () s4" and i4: "inp s4 = encode v @ ?rest"
    and o4: "out s4 = out ?s3 @ json_string k" by auto
  let ?s4 = "output_character (CHR '':'') s4"
  from i4 have i4': "inp ?s4 = encode v @ ?rest" by simp
  from kv have "v \<in> snd ` set (kv # kvs)" by simp
  from Cons.prems(1) [OF this m(2) i4']
  obtain s5 where v5: "convert_value m ?s4 = Return () s5" and i5: "inp s5 = ?rest"
    and o5: "out s5 = out ?s4 @ json v" by auto
  from Cons.prems(2) have keys: "\<forall>(k, v)\<in>set kvs. int (length k) \<le> INT_MAX" by simp
  have "\<exists>s'. convert_dictionary_loop m True s5 = Return () s' \<and> inp s' = rest \<and>
              out s' = out s5 @
                (if True
                 then concat (map (\<lambda>(k, v). CHR '','' # json_string k @ CHR '':'' # json v) kvs)
                 else join (map (\<lambda>(k, v). json_string k @ CHR '':'' # json v) kvs))"
  proof (rule Cons.IH)
    fix v n and s :: state and rest
    assume "v \<in> snd ` set kvs" "enough v \<le> n" "inp s = encode v @ rest"
    then show "\<exists>s'. convert_value n s = Return () s' \<and> inp s' = rest \<and> out s' = out s @ json v"
      using Cons.prems(1) [of v n s rest] by auto
  next
    show "\<forall>(k, v)\<in>set kvs. int (length k) \<le> INT_MAX" by (rule keys)
  next
    show "length kvs + sum_list (map (\<lambda>(k, v). enough v) kvs) < m" by (rule m(3))
  next
    show "inp s5 = ?rest" by (rule i5)
  qed
  then obtain s' where "convert_dictionary_loop m True s5 = Return () s'" and "inp s' = rest"
    and "out s' = out s5 @ concat (map (\<lambda>(k, v). CHR '','' # json_string k @ CHR '':'' # json v) kvs)"
    by auto
  with step k4 v5 o4 o5 kv show ?case by (simp add: comp_def case_prod_unfold)
qed

lemma convert_value_encode:
  "int_sized v \<Longrightarrow> enough v \<le> n \<Longrightarrow> inp s = encode v @ rest \<Longrightarrow>
   \<exists>s'. convert_value n s = Return () s' \<and> inp s' = rest \<and> out s' = out s @ json v"
proof (induction v arbitrary: n s rest)
  case (BInteger k)
  then show ?case using convert_value_integer [of s k rest n] by simp
next
  case (BString bs)
  then show ?case using convert_value_string [of bs s rest n] by simp
next
  case (BList vs)
  from BList.prems(2) obtain m where n: "n = Suc m" by (cases n) auto
  let ?code = "concat (map encode vs) @ CHR ''e'' # rest"
  let ?s1 = "s\<lparr>inp := ?code, calls := calls s @ [Get (Some (CHR ''l''))]\<rparr>"
  let ?s2 = "output_character (CHR ''['') ?s1"
  from BList.prems(3) have d: "convert_value n s = convert_list m ?s1"
    unfolding n by (intro convert_value_l) simp
  have elem: "\<And>v n s rest. v \<in> set vs \<Longrightarrow> enough v \<le> n \<Longrightarrow> inp s = encode v @ rest \<Longrightarrow>
             \<exists>s'. convert_value n s = Return () s' \<and> inp s' = rest \<and> out s' = out s @ json v"
  proof -
    fix v n and s :: state and rest
    assume v: "v \<in> set vs" and *: "enough v \<le> n" "inp s = encode v @ rest"
    with BList.prems(1) have "int_sized v" by simp
    from BList.IH [OF v this *]
    show "\<exists>s'. convert_value n s = Return () s' \<and> inp s' = rest \<and> out s' = out s @ json v" .
  qed
  from BList.prems(2) n have b: "length vs + sum_list (map enough vs) < m" by simp
  have i2: "inp ?s2 = ?code" by simp
  have "\<exists>s'. convert_list_loop m False ?s2 = Return () s' \<and> inp s' = rest \<and>
              out s' = out ?s2 @ join (map json vs)"
    using convert_list_loop_items [of vs m ?s2 rest False] elem b i2 by simp
  then obtain s' where "convert_list_loop m False ?s2 = Return () s'" and "inp s' = rest"
    and "out s' = out ?s2 @ join (map json vs)"
    by blast
  with d show ?case by simp
next
  case (BDictionary kvs)
  from BDictionary.prems(2) obtain m where n: "n = Suc m" by (cases n) auto
  let ?code = "concat (map (\<lambda>(k, v). encode_string k @ encode v) kvs) @ CHR ''e'' # rest"
  let ?s1 = "s\<lparr>inp := ?code, calls := calls s @ [Get (Some (CHR ''d''))]\<rparr>"
  let ?s2 = "output_character (CHR ''{'') ?s1"
  from BDictionary.prems(3) have d: "convert_value n s = convert_dictionary m ?s1"
    unfolding n by (intro convert_value_d) simp
  have elem: "\<And>v n s rest. v \<in> snd ` set kvs \<Longrightarrow> enough v \<le> n \<Longrightarrow> inp s = encode v @ rest \<Longrightarrow>
             \<exists>s'. convert_value n s = Return () s' \<and> inp s' = rest \<and> out s' = out s @ json v"
  proof -
    fix v n and s :: state and rest
    assume "v \<in> snd ` set kvs" and *: "enough v \<le> n" "inp s = encode v @ rest"
    then obtain k where kv: "(k, v) \<in> set kvs" by auto
    with BDictionary.prems(1) have i: "int_sized v" by auto
    have "v \<in> Basic_BNFs.snds (k, v)" by simp
    from BDictionary.IH [OF kv this i *]
    show "\<exists>s'. convert_value n s = Return () s' \<and> inp s' = rest \<and> out s' = out s @ json v" .
  qed
  from BDictionary.prems(1) have keys: "\<forall>(k, v)\<in>set kvs. int (length k) \<le> INT_MAX" by auto
  from BDictionary.prems(2) n have b: "length kvs + sum_list (map (\<lambda>(k, v). enough v) kvs) < m" by simp
  have i2: "inp ?s2 = ?code" by simp
  have "\<exists>s'. convert_dictionary_loop m False ?s2 = Return () s' \<and> inp s' = rest \<and>
    out s' = out ?s2 @ join (map (\<lambda>(k, v). json_string k @ CHR '':'' # json v) kvs)"
    using convert_dictionary_loop_items [of kvs m ?s2 rest False] elem keys b i2 by simp
  then obtain s' where "convert_dictionary_loop m False ?s2 = Return () s'" and "inp s' = rest"
    and "out s' = out ?s2 @ join (map (\<lambda>(k, v). json_string k @ CHR '':'' # json v) kvs)"
    by blast
  with d show ?case by simp
qed

section \<open>Strings of 2147483648 bytes and more\<close>

lemma returned_None: "returned r = None \<longleftrightarrow> (\<exists>e s. r = Stop e s)"
  by (cases r) auto

lemma atoi_too_large: "atoi ''2147483648'' = None"
  by (simp add: atoi_def isspace_def isdigit_def digits_value_def digit_value_def
      INT_MAX_def INT_MIN_def)

lemma convert_string_too_large:
  assumes "inp s = ''2147483648:'' @ rest"
  shows "returned (convert_string s) = None"
proof -
  from assms have i: "inp s = ''2147483648'' @ CHR '':'' # rest" by simp
  have "CHR '':'' \<notin> set ''2147483648''" "length ''2147483648'' < MAX_INT_LEN"
    by (simp_all add: MAX_INT_LEN_def)
  from read_count_prefix [OF this i]
  obtain s' where "read_count s = Stop IntOverflow s'"
    by (auto simp: atoi_too_large)
  then show ?thesis by (simp add: convert_string_def)
qed

lemma convert_value_too_large:
  assumes "inp s = ''2147483648:'' @ rest"
  shows "returned (convert_value n s) = None"
proof (cases n)
  case 0
  then show ?thesis by simp
next
  case (Suc m)
  let ?s2 = "s\<lparr>calls := calls s @ [Get (Some (CHR ''2'')), Unget (CHR ''2'')]\<rparr>"
  from assms have "convert_value (Suc m) s = convert_string ?s2"
    by (intro convert_value_other) simp_all
  moreover from assms have "returned (convert_string ?s2) = None"
    by (intro convert_string_too_large) simp
  ultimately show ?thesis using Suc by simp
qed

lemma convert_list_too_large:
  assumes "inp s = ''2147483648:'' @ rest"
  shows "returned (convert_list n s) = None"
proof (cases n)
  case 0
  then show ?thesis by simp
next
  case (Suc m)
  let ?s1 = "output_character (CHR ''['') s"
  let ?s2 = "?s1\<lparr>calls := calls ?s1 @ [Get (Some (CHR ''2'')), Unget (CHR ''2'')]\<rparr>"
  from assms have "inp ?s1 = CHR ''2'' # (''147483648:'' @ rest)" by simp
  then have "convert_list_loop (Suc m) False ?s1 =
     (case convert_value m (if False then output_character (CHR '','') ?s2 else ?s2) of
        Stop e s4 \<Rightarrow> Stop e s4
      | Return _ s4 \<Rightarrow> convert_list_loop m True s4)"
    by (rule convert_list_loop_item) simp_all
  moreover from assms have "returned (convert_value m ?s2) = None"
    by (intro convert_value_too_large) simp
  then obtain e s4 where "convert_value m ?s2 = Stop e s4" by (auto simp: returned_None)
  ultimately show ?thesis using Suc by simp
qed

lemma convert_dictionary_too_large:
  assumes "inp s = ''2147483648:'' @ rest"
  shows "returned (convert_dictionary n s) = None"
proof (cases n)
  case 0
  then show ?thesis by simp
next
  case (Suc m)
  let ?s1 = "output_character (CHR ''{'') s"
  let ?s2 = "?s1\<lparr>calls := calls ?s1 @ [Get (Some (CHR ''2'')), Unget (CHR ''2'')]\<rparr>"
  from assms have "inp ?s1 = CHR ''2'' # (''147483648:'' @ rest)" by simp
  then have "convert_dictionary_loop (Suc m) False ?s1 =
     (case convert_value m (if False then output_character (CHR '','') ?s2 else ?s2) of
        Stop e s4 \<Rightarrow> Stop e s4
      | Return _ s4 \<Rightarrow>
          (case convert_value m (output_character (CHR '':'') s4) of
             Stop e s5 \<Rightarrow> Stop e s5
           | Return _ s5 \<Rightarrow> convert_dictionary_loop m True s5))"
    by (rule convert_dictionary_loop_item) simp_all
  moreover from assms have "returned (convert_value m ?s2) = None"
    by (intro convert_value_too_large) simp
  then obtain e s4 where "convert_value m ?s2 = Stop e s4" by (auto simp: returned_None)
  ultimately show ?thesis using Suc by simp
qed

section \<open>Lists\<close>

text \<open>
  C3, as amended. After the \<open>l\<close>, for any number of values whose strings are at most
  \<open>INT_MAX\<close> bytes long, followed by \<open>e\<close>: given enough fuel, \<open>convert_list\<close> writes
  \<open>[\<close>, the JSON text of each value in the order of the input, with a comma before every
  one but the first, and \<open>]\<close>; it reads the values and the \<open>e\<close>, and nothing after the
  \<open>e\<close>.
\<close>

theorem convert_list_array:
  assumes "\<forall>v\<in>set vs. int_sized v" and "length vs + sum_list (map enough vs) < n"
    and "inp s = concat (map encode vs) @ CHR ''e'' # rest"
  shows "\<exists>s'. convert_list n s = Return () s' \<and> inp s' = rest \<and>
              out s' = out s @ CHR ''['' # join (map json vs) @ '']''"
proof -
  let ?s1 = "output_character (CHR ''['') s"
  have elem: "\<And>v n s rest. v \<in> set vs \<Longrightarrow> enough v \<le> n \<Longrightarrow> inp s = encode v @ rest \<Longrightarrow>
             \<exists>s'. convert_value n s = Return () s' \<and> inp s' = rest \<and> out s' = out s @ json v"
    using assms(1) convert_value_encode by blast
  from assms(3) have i: "inp ?s1 = concat (map encode vs) @ CHR ''e'' # rest" by simp
  have "\<exists>s'. convert_list_loop n False ?s1 = Return () s' \<and> inp s' = rest \<and>
              out s' = out ?s1 @ join (map json vs)"
    using convert_list_loop_items [of vs n ?s1 rest False] elem assms(2) i by simp
  then show ?thesis by auto
qed

text \<open>
  The list of \<^verbatim>\<open>spam\<close>, 7 and \<^verbatim>\<open>eggs\<close> gives \<^verbatim>\<open>["spam",7,"eggs"]\<close>, and the
  empty list gives \<^verbatim>\<open>[]\<close>.
\<close>

theorem convert_list_array_witness:
  "int_sized (BList [BString ''spam'', BInteger 7, BString ''eggs'']) \<and>
   (\<exists>s'. convert_list 9 (stdin ''4:spami7e4:eggsexyz'') = Return () s' \<and> inp s' = ''xyz'' \<and>
          out s' = [CHR ''['', CHR 0x22, CHR ''s'', CHR ''p'', CHR ''a'', CHR ''m'', CHR 0x22, CHR '','',
                    CHR ''7'', CHR '','',
                    CHR 0x22, CHR ''e'', CHR ''g'', CHR ''g'', CHR ''s'', CHR 0x22, CHR '']'']) \<and>
   (\<exists>s'. convert_list 1 (stdin ''e'') = Return () s' \<and> inp s' = [] \<and> out s' = ''[]'')"
  using convert_list_array [of "[BString ''spam'', BInteger 7, BString ''eggs'']" 9
      "stdin ''4:spami7e4:eggsexyz''" "''xyz''"]
    convert_list_array [of "[]" 1 "stdin ''e''" "[]"]
  by (simp add: stdin_def INT_MAX_def encode_string_def decimal.simps show_int_def
      json_string_def json_escape_def isalnum_def digit_char_def)

text \<open>
  C3 as stated fails on a list that holds a string of 2147483648 bytes: whatever the fuel,
  \<open>convert_list\<close> does not return on it.
\<close>

theorem convert_list_counterexample:
  "\<not> (\<exists>n s'. convert_list n
           (stdin (''2147483648:'' @ replicate 2147483648 (CHR ''a'') @ ''e'')) = Return () s')"
proof
  assume "\<exists>n s'. convert_list n
           (stdin (''2147483648:'' @ replicate 2147483648 (CHR ''a'') @ ''e'')) = Return () s'"
  then obtain n s' where "convert_list n
           (stdin (''2147483648:'' @ replicate 2147483648 (CHR ''a'') @ ''e'')) = Return () s'"
    by blast
  moreover have "returned (convert_list n
           (stdin (''2147483648:'' @ replicate 2147483648 (CHR ''a'') @ ''e''))) = None"
    by (rule convert_list_too_large [of _ "replicate 2147483648 (CHR ''a'') @ ''e''"])
       (simp add: stdin_def)
  ultimately show False by simp
qed

section \<open>Dictionaries\<close>

text \<open>
  C4, as amended. After the \<open>d\<close>, for any number of pairs of a key and a value whose
  strings are at most \<open>INT_MAX\<close> bytes long, followed by \<open>e\<close>: given enough fuel,
  \<open>convert_dictionary\<close> writes \<open>{\<close>, for each pair in the order of the input the key as a
  JSON string, a colon and the JSON text of the value, with a comma before every pair but
  the first, and \<open>}\<close>; it reads the pairs and the \<open>e\<close>, and nothing after the \<open>e\<close>.
\<close>

theorem convert_dictionary_object:
  assumes "\<forall>(k, v)\<in>set kvs. int (length k) \<le> INT_MAX \<and> int_sized v"
    and "length kvs + sum_list (map (\<lambda>(k, v). enough v) kvs) < n"
    and "inp s = concat (map (\<lambda>(k, v). encode_string k @ encode v) kvs) @ CHR ''e'' # rest"
  shows "\<exists>s'. convert_dictionary n s = Return () s' \<and> inp s' = rest \<and>
              out s' = out s @
                CHR ''{'' # join (map (\<lambda>(k, v). json_string k @ CHR '':'' # json v) kvs) @ ''}''"
proof -
  let ?s1 = "output_character (CHR ''{'') s"
  have elem: "\<And>v n s rest. v \<in> snd ` set kvs \<Longrightarrow> enough v \<le> n \<Longrightarrow> inp s = encode v @ rest \<Longrightarrow>
             \<exists>s'. convert_value n s = Return () s' \<and> inp s' = rest \<and> out s' = out s @ json v"
  proof -
    fix v n and s :: state and rest
    assume "v \<in> snd ` set kvs" and *: "enough v \<le> n" "inp s = encode v @ rest"
    with assms(1) have "int_sized v" by auto
    from convert_value_encode [OF this *]
    show "\<exists>s'. convert_value n s = Return () s' \<and> inp s' = rest \<and> out s' = out s @ json v" .
  qed
  from assms(1) have keys: "\<forall>(k, v)\<in>set kvs. int (length k) \<le> INT_MAX" by auto
  from assms(3) have i: "inp ?s1 =
      concat (map (\<lambda>(k, v). encode_string k @ encode v) kvs) @ CHR ''e'' # rest" by simp
  have "\<exists>s'. convert_dictionary_loop n False ?s1 = Return () s' \<and> inp s' = rest \<and>
              out s' = out ?s1 @ join (map (\<lambda>(k, v). json_string k @ CHR '':'' # json v) kvs)"
    using convert_dictionary_loop_items [of kvs n ?s1 rest False] elem keys assms(2) i by simp
  then show ?thesis by auto
qed

text \<open>
  \<^verbatim>\<open>d3:cow3:moo4:spam4:eggse\<close> gives \<^verbatim>\<open>{"cow":"moo","spam":"eggs"}\<close>, and the empty
  dictionary gives \<^verbatim>\<open>{}\<close>.
\<close>

theorem convert_dictionary_object_witness:
  "int_sized (BDictionary [(''cow'', BString ''moo''), (''spam'', BString ''eggs'')]) \<and>
   (\<exists>s'. convert_dictionary 5 (stdin ''3:cow3:moo4:spam4:eggse'') = Return () s' \<and> inp s' = [] \<and>
          out s' = [CHR ''{'', CHR 0x22, CHR ''c'', CHR ''o'', CHR ''w'', CHR 0x22, CHR '':'',
                    CHR 0x22, CHR ''m'', CHR ''o'', CHR ''o'', CHR 0x22, CHR '','',
                    CHR 0x22, CHR ''s'', CHR ''p'', CHR ''a'', CHR ''m'', CHR 0x22, CHR '':'',
                    CHR 0x22, CHR ''e'', CHR ''g'', CHR ''g'', CHR ''s'', CHR 0x22, CHR ''}'']) \<and>
   (\<exists>s'. convert_dictionary 1 (stdin ''e'') = Return () s' \<and> inp s' = [] \<and> out s' = ''{}'')"
  using convert_dictionary_object [of "[(''cow'', BString ''moo''), (''spam'', BString ''eggs'')]" 5
      "stdin ''3:cow3:moo4:spam4:eggse''" "[]"]
    convert_dictionary_object [of "[]" 1 "stdin ''e''" "[]"]
  by (simp add: stdin_def INT_MAX_def encode_string_def decimal.simps
      json_string_def json_escape_def isalnum_def digit_char_def)

text \<open>
  C4 as stated fails on a dictionary with a key of 2147483648 bytes: whatever the fuel,
  \<open>convert_dictionary\<close> does not return on it.
\<close>

theorem convert_dictionary_counterexample:
  "\<not> (\<exists>n s'. convert_dictionary n
           (stdin (''2147483648:'' @ replicate 2147483648 (CHR ''a'') @ ''i0ee'')) = Return () s')"
proof
  assume "\<exists>n s'. convert_dictionary n
           (stdin (''2147483648:'' @ replicate 2147483648 (CHR ''a'') @ ''i0ee'')) = Return () s'"
  then obtain n s' where "convert_dictionary n
           (stdin (''2147483648:'' @ replicate 2147483648 (CHR ''a'') @ ''i0ee'')) = Return () s'"
    by blast
  moreover have "returned (convert_dictionary n
           (stdin (''2147483648:'' @ replicate 2147483648 (CHR ''a'') @ ''i0ee''))) = None"
    by (rule convert_dictionary_too_large [of _ "replicate 2147483648 (CHR ''a'') @ ''i0ee''"])
       (simp add: stdin_def)
  ultimately show False by simp
qed

section \<open>The dispatcher\<close>

text \<open>
  C6, as amended. \<open>convert_value\<close> reads one byte. On \<open>i\<close>, \<open>l\<close> and \<open>d\<close> it runs
  the integer, list and dictionary converter on the input after that byte. On any other
  byte but 0xFF it runs the string converter on the input as it was, the byte pushed back.
  On the encoding of a value whose strings are at most \<open>INT_MAX\<close> bytes long it returns,
  given enough fuel, having read exactly that encoding and written exactly the JSON text of
  the value.
\<close>

theorem convert_value_dispatch:
  "(inp s = b # bs \<and> b \<noteq> CHR 0xFF \<longrightarrow>
      convert_value (Suc n) s =
        (if b = CHR ''i''
         then convert_integer n (s\<lparr>inp := bs, calls := calls s @ [Get (Some b)]\<rparr>)
         else if b = CHR ''l''
         then convert_list n (s\<lparr>inp := bs, calls := calls s @ [Get (Some b)]\<rparr>)
         else if b = CHR ''d''
         then convert_dictionary n (s\<lparr>inp := bs, calls := calls s @ [Get (Some b)]\<rparr>)
         else convert_string (s\<lparr>inp := b # bs, calls := calls s @ [Get (Some b), Unget b]\<rparr>))) \<and>
   (int_sized v \<and> enough v \<le> n \<and> inp s = encode v @ rest \<longrightarrow>
      (\<exists>s'. convert_value n s = Return () s' \<and> inp s' = rest \<and> out s' = out s @ json v))"
proof (intro conjI impI)
  assume "inp s = b # bs \<and> b \<noteq> CHR 0xFF"
  then show "convert_value (Suc n) s =
        (if b = CHR ''i''
         then convert_integer n (s\<lparr>inp := bs, calls := calls s @ [Get (Some b)]\<rparr>)
         else if b = CHR ''l''
         then convert_list n (s\<lparr>inp := bs, calls := calls s @ [Get (Some b)]\<rparr>)
         else if b = CHR ''d''
         then convert_dictionary n (s\<lparr>inp := bs, calls := calls s @ [Get (Some b)]\<rparr>)
         else convert_string (s\<lparr>inp := b # bs, calls := calls s @ [Get (Some b), Unget b]\<rparr>))"
    by (simp add: get_character_Cons unget_character_def)
next
  assume "int_sized v \<and> enough v \<le> n \<and> inp s = encode v @ rest"
  then show "\<exists>s'. convert_value n s = Return () s' \<and> inp s' = rest \<and> out s' = out s @ json v"
    using convert_value_encode by blast
qed

text \<open>
  The byte \<open>4\<close> of \<^verbatim>\<open>4:spam\<close> is pushed back; \<^verbatim>\<open>d1:ali-3e1:xee\<close> gives
  \<^verbatim>\<open>{"a":[-3,"x"]}\<close> and leaves what follows it unread.
\<close>

theorem convert_value_dispatch_witness:
  "convert_value (Suc 0) (stdin ''4:spam'') =
     convert_string \<lparr>inp = ''4:spam'', out = [],
                      calls = [Get (Some (CHR ''4'')), Unget (CHR ''4'')]\<rparr> \<and>
   int_sized (BDictionary [(''a'', BList [BInteger (- 3), BString ''x''])]) \<and>
   (\<exists>s'. convert_value 12 (stdin ''d1:ali-3e1:xeetail'') = Return () s' \<and> inp s' = ''tail'' \<and>
          out s' = [CHR ''{'', CHR 0x22, CHR ''a'', CHR 0x22, CHR '':'', CHR ''['', CHR ''-'', CHR ''3'',
                    CHR '','', CHR 0x22, CHR ''x'', CHR 0x22, CHR '']'', CHR ''}''])"
  using convert_value_dispatch [of "stdin ''4:spam''" "CHR ''4''" "'':spam''" 0 "BInteger 0" "[]"]
    convert_value_dispatch [of "stdin ''d1:ali-3e1:xeetail''" "CHR ''d''" "''1:ali-3e1:xeetail''" 12
      "BDictionary [(''a'', BList [BInteger (- 3), BString ''x''])]" "''tail''"]
  by (simp add: stdin_def INT_MAX_def encode_string_def decimal.simps show_int_def
      json_string_def json_escape_def isalnum_def digit_char_def)

text \<open>
  C6 as stated fails twice. The byte 0xFF is not pushed back: the string converter runs on
  the input after it, and \<^verbatim>\<open>1:a\<close> behind a byte 0xFF comes out as \<^verbatim>\<open>"a"\<close>. And
  on the encoding of a string of 2147483648 bytes \<open>convert_value\<close> does not return,
  whatever the fuel.
\<close>

theorem convert_value_counterexample:
  "convert_value (Suc 0) (stdin [CHR 0xFF, CHR ''1'', CHR '':'', CHR ''a'']) =
     convert_string \<lparr>inp = ''1:a'', out = [],
                      calls = [Get (Some (CHR 0xFF)), Unget (CHR 0xFF)]\<rparr> \<and>
   out (final (convert_value (Suc 0) (stdin [CHR 0xFF, CHR ''1'', CHR '':'', CHR ''a'']))) =
     [CHR 0x22, CHR ''a'', CHR 0x22] \<and>
   \<not> (\<exists>n s'. convert_value n
           (stdin (''2147483648:'' @ replicate 2147483648 (CHR ''a''))) = Return () s')"
proof (intro conjI)
  show d: "convert_value (Suc 0) (stdin [CHR 0xFF, CHR ''1'', CHR '':'', CHR ''a'']) =
     convert_string \<lparr>inp = ''1:a'', out = [],
                      calls = [Get (Some (CHR 0xFF)), Unget (CHR 0xFF)]\<rparr>"
    by (simp add: stdin_def get_character_def unget_character_def)
  have "convert_string \<lparr>inp = ''1:a'', out = [],
                      calls = [Get (Some (CHR 0xFF)), Unget (CHR 0xFF)]\<rparr> =
        Return () \<lparr>inp = [], out = [CHR 0x22, CHR ''a'', CHR 0x22],
                      calls = [Get (Some (CHR 0xFF)), Unget (CHR 0xFF), Get (Some (CHR ''1'')),
                               Get (Some (CHR '':'')), Get (Some (CHR ''a''))]\<rparr>"
    by code_simp
  with d show "out (final (convert_value (Suc 0) (stdin [CHR 0xFF, CHR ''1'', CHR '':'', CHR ''a'']))) =
     [CHR 0x22, CHR ''a'', CHR 0x22]"
    by simp
  show "\<not> (\<exists>n s'. convert_value n
           (stdin (''2147483648:'' @ replicate 2147483648 (CHR ''a''))) = Return () s')"
  proof
    assume "\<exists>n s'. convert_value n
           (stdin (''2147483648:'' @ replicate 2147483648 (CHR ''a''))) = Return () s'"
    then obtain n s' where "convert_value n
           (stdin (''2147483648:'' @ replicate 2147483648 (CHR ''a''))) = Return () s'"
      by blast
    moreover have "returned (convert_value n
           (stdin (''2147483648:'' @ replicate 2147483648 (CHR ''a'')))) = None"
      by (rule convert_value_too_large [of _ "replicate 2147483648 (CHR ''a'')"])
         (simp add: stdin_def)
    ultimately show False by simp
  qed
qed

section \<open>The program\<close>

lemma convert_integer_no_e:
  "CHR ''e'' \<notin> set (inp s) \<Longrightarrow> returned (convert_integer n s) = None"
proof (induction n arbitrary: s)
  case 0
  then show ?case by simp
next
  case (Suc n)
  show ?case
  proof (cases "inp s")
    case Nil
    let ?s1 = "output_character (CHR 0xFF) (s\<lparr>calls := calls s @ [Get None]\<rparr>)"
    from Nil have "CHR ''e'' \<notin> set (inp ?s1)" by simp
    then have "returned (convert_integer n ?s1) = None" by (rule Suc.IH)
    with Nil show ?thesis by (simp add: get_character_Nil)
  next
    case (Cons b bs)
    let ?s1 = "output_character b (s\<lparr>inp := bs, calls := calls s @ [Get (Some b)]\<rparr>)"
    from Cons Suc.prems have b: "b \<noteq> CHR ''e''" and "CHR ''e'' \<notin> set (inp ?s1)" by auto
    then have "returned (convert_integer n ?s1) = None" by (intro Suc.IH)
    with Cons b show ?thesis by (simp add: get_character_Cons)
  qed
qed

text \<open>
  C5, as amended. On an input that starts with the encoding of a value whose strings are at
  most \<open>INT_MAX\<close> bytes long, \<open>main\<close>, given enough fuel, reads exactly that encoding,
  writes its JSON text and returns 0. And whenever \<open>main\<close> returns, on any input, it
  returns 0.
\<close>

theorem main_returns_zero:
  "(int_sized v \<and> enough v \<le> n \<and> inp s = encode v @ rest \<longrightarrow>
      (\<exists>s'. main n s = Return 0 s' \<and> inp s' = rest \<and> out s' = out s @ json v)) \<and>
   (main n s = Return r s1 \<longrightarrow> r = 0)"
proof (intro conjI impI)
  assume "int_sized v \<and> enough v \<le> n \<and> inp s = encode v @ rest"
  then have "\<exists>s'. convert_value n s = Return () s' \<and> inp s' = rest \<and> out s' = out s @ json v"
    using convert_value_encode by blast
  then show "\<exists>s'. main n s = Return 0 s' \<and> inp s' = rest \<and> out s' = out s @ json v"
    by (auto simp: main_def)
next
  assume "main n s = Return r s1"
  then show "r = 0" by (simp add: main_def split: outcome.splits)
qed

text \<open>
  The input \<^verbatim>\<open>li42eei1e\<close> gives \<^verbatim>\<open>[42]\<close> and leaves \<^verbatim>\<open>i1e\<close> unread; the
  malformed input \<^verbatim>\<open>x:\<close> gives an empty JSON string, and exit status 0 as well.
\<close>

theorem main_returns_zero_witness:
  "int_sized (BList [BInteger 42]) \<and>
   (\<exists>s'. main 9 (stdin ''li42eei1e'') = Return 0 s' \<and> inp s' = ''i1e'' \<and> out s' = ''[42]'') \<and>
   main 1 (stdin ''x:'') =
     Return 0 \<lparr>inp = [], out = [CHR 0x22, CHR 0x22],
                 calls = [Get (Some (CHR ''x'')), Unget (CHR ''x''), Get (Some (CHR ''x'')),
                          Get (Some (CHR '':''))]\<rparr>"
proof -
  have m: "main 1 (stdin ''x:'') =
     Return 0 \<lparr>inp = [], out = [CHR 0x22, CHR 0x22],
                 calls = [Get (Some (CHR ''x'')), Unget (CHR ''x''), Get (Some (CHR ''x'')),
                          Get (Some (CHR '':''))]\<rparr>"
    by code_simp
  show ?thesis
    using m main_returns_zero [of "BList [BInteger 42]" 9 "stdin ''li42eei1e''" "''i1e''" 0 "stdin []"]
      main_returns_zero [of "BInteger 0" 1 "stdin ''x:''" "[]" 0
        "\<lparr>inp = [], out = [CHR 0x22, CHR 0x22],
                 calls = [Get (Some (CHR ''x'')), Unget (CHR ''x''), Get (Some (CHR ''x'')),
                          Get (Some (CHR '':''))]\<rparr>"]
    by (simp add: stdin_def show_int_def decimal.simps digit_char_def)
qed

text \<open>
  C5 as stated fails on the truncated integer \<^verbatim>\<open>i42\<close>: at the end of the input
  \<^verbatim>\<open>get_character\<close> returns EOF on every call, the copy loop of \<open>convert_integer\<close>
  never reads an \<open>e\<close>, and \<open>main\<close> does not return, whatever the fuel.
\<close>

theorem main_counterexample:
  "\<not> (\<exists>n r s'. main n (stdin ''i42'') = Return r s')"
proof
  assume "\<exists>n r s'. main n (stdin ''i42'') = Return r s'"
  then obtain n r s' where m: "main n (stdin ''i42'') = Return r s'" by blast
  then obtain k where n: "n = Suc k" by (cases n) (auto simp: main_def)
  let ?s1 = "(stdin ''i42'')\<lparr>inp := ''42'', calls := calls (stdin ''i42'') @ [Get (Some (CHR ''i''))]\<rparr>"
  have "convert_value (Suc k) (stdin ''i42'') = convert_integer k ?s1"
    by (rule convert_value_i) (simp add: stdin_def)
  moreover have "returned (convert_integer k ?s1) = None"
    by (rule convert_integer_no_e) simp
  ultimately have "returned (main n (stdin ''i42'')) = None"
    by (auto simp: main_def n returned_None)
  with m show False by simp
qed

section \<open>The pushback discipline holds\<close>

lemma pushback_ok_append: "pushback_ok t \<Longrightarrow> pushback_ok u \<Longrightarrow> pushback_ok (t @ u)"
proof (induction t rule: pushback_ok.induct)
  fix r
  assume "pushback_ok u"
  then show "pushback_ok ([Get r] @ u)" by (cases u rule: pushback_ok.cases) auto
qed auto

lemma pushback_ok_take: "pushback_ok t \<Longrightarrow> pushback_ok (take k t)"
proof (induction t arbitrary: k rule: pushback_ok.induct)
  fix r c es k
  assume IH: "\<And>k. pushback_ok es \<Longrightarrow> pushback_ok (take k es)"
    and ok: "pushback_ok (Get r # Unget c # es)"
  show "pushback_ok (take k (Get r # Unget c # es))"
  proof (cases k)
    case 0
    then show ?thesis by simp
  next
    case (Suc j)
    with IH ok show ?thesis by (cases j) auto
  qed
next
  fix r v es k
  assume IH: "\<And>k. pushback_ok (Get v # es) \<Longrightarrow> pushback_ok (take k (Get v # es))"
    and ok: "pushback_ok (Get r # Get v # es)"
  show "pushback_ok (take k (Get r # Get v # es))"
  proof (cases k)
    case 0
    then show ?thesis by simp
  next
    case (Suc j)
    from IH [of j] ok have "pushback_ok (take j (Get v # es))" by simp
    with Suc show ?thesis by (cases j) auto
  qed
qed (auto simp: take_Cons')

lemma held_le_1_aux:
  "pushback_ok t \<Longrightarrow> h \<le> 1 \<Longrightarrow>
   foldl (\<lambda>h e. case e of Get r \<Rightarrow> h - 1
                           | Unget c \<Rightarrow> if c = CHR 0xFF then h else h + 1) h t \<le> (1::nat)"
proof (induction t arbitrary: h rule: pushback_ok.induct)
  case (3 r c es)
  then have ok: "pushback_ok es" by simp
  from 3 have "h - 1 \<le> 1" "Suc (h - 1) \<le> 1" by auto
  with 3 ok show ?case by simp
qed auto

lemma pushback_ok_held: "pushback_ok t \<Longrightarrow> held t \<le> 1"
  unfolding held_def by (rule held_le_1_aux) simp_all

lemma extends_refl: "extends s s"
  by (simp add: extends_def)

lemma extends_trans: "extends s s1 \<Longrightarrow> extends s1 s2 \<Longrightarrow> extends s s2"
  by (auto simp: extends_def intro: pushback_ok_append)

lemma extends_calls: "calls s' = calls s \<Longrightarrow> extends s s'"
  by (simp add: extends_def)

lemma extends_get: "get_character s = (r, s1) \<Longrightarrow> extends s s1"
  by (auto simp: extends_def get_character_def split: list.splits)

lemma extends_get_unget:
  "get_character s = (r, s1) \<Longrightarrow> extends s (unget_character (to_char r) s1)"
  by (auto simp: extends_def get_character_def unget_character_def split: list.splits)

lemma extends_output: "extends s s1 \<Longrightarrow> extends s (output_character c s1)"
  by (simp add: extends_def)

lemma extends_convert_integer: "extends s (final (convert_integer n s))"
proof (induction n arbitrary: s)
  case 0
  then show ?case by (simp add: extends_refl)
next
  case (Suc n)
  obtain r s1 where g: "get_character s = (r, s1)" by (cases "get_character s")
  then have e: "extends s s1" by (rule extends_get)
  show ?case
  proof (cases "to_char r = CHR ''e''")
    case True
    with g e show ?thesis by simp
  next
    case False
    from e have "extends s (output_character (to_char r) s1)" by (rule extends_output)
    then have "extends s (final (convert_integer n (output_character (to_char r) s1)))"
      using Suc.IH by (rule extends_trans)
    with g False show ?thesis by simp
  qed
qed

lemma extends_read_count_loop: "extends s (final (read_count_loop buf k s))"
proof (induction buf k s rule: read_count_loop.induct)
  case (1 lenBuf lenBufLen s)
  obtain r s1 where g: "get_character s = (r, s1)" by (cases "get_character s")
  then have e: "extends s s1" by (rule extends_get)
  show ?case
  proof (cases "to_char r \<noteq> CHR '':'' \<and> \<not> MAX_INT_LEN \<le> Suc lenBufLen \<and>
                 store lenBuf (Suc lenBufLen - 1) (to_char r) \<noteq> None")
    case True
    then obtain buf' where b: "store lenBuf (Suc lenBufLen - 1) (to_char r) = Some buf'" by auto
    have "extends s1 (final (read_count_loop buf' (Suc lenBufLen) s1))"
      by (rule "1.IH" [OF g [symmetric] refl _ b]) (use True in auto)
    with e have "extends s (final (read_count_loop buf' (Suc lenBufLen) s1))"
      by (rule extends_trans)
    with g True b show ?thesis by (subst read_count_loop.simps) simp
  next
    case False
    with g e show ?thesis
      by (subst read_count_loop.simps) (auto simp: Let_def split: option.splits)
  qed
qed

lemma extends_read_count: "extends s (final (read_count s))"
proof -
  have "extends s (final (read_count_loop (replicate MAX_INT_LEN None) 0 s))"
    by (rule extends_read_count_loop)
  then show ?thesis
    by (auto simp: read_count_def split: outcome.splits option.splits sum.splits prod.splits)
qed

lemma extends_convert_char: "extends s (convert_char s)"
proof -
  obtain r s1 where g: "get_character s = (r, s1)" by (cases "get_character s")
  then have "extends s s1" by (rule extends_get)
  with g show ?thesis by (simp add: convert_char_def Let_def extends_output)
qed

lemma extends_convert_chars: "extends s (convert_chars k s)"
proof (induction k arbitrary: s)
  case 0
  then show ?case by (simp add: extends_refl)
next
  case (Suc k)
  have "extends s (convert_char s)" by (rule extends_convert_char)
  then show ?case using Suc.IH [of "convert_char s"] by (simp add: extends_trans)
qed

lemma extends_convert_string: "extends s (final (convert_string s))"
proof (cases "read_count s")
  case (Return count s1)
  with extends_read_count [of s] have "extends s s1" by simp
  then have "extends s (output_character (CHR 0x22) s1)" by (rule extends_output)
  then have "extends s (convert_chars count (output_character (CHR 0x22) s1))"
    using extends_convert_chars by (rule extends_trans)
  then show ?thesis using Return by (simp add: convert_string_def extends_output)
next
  case (Stop e s1)
  with extends_read_count [of s] show ?thesis by (simp add: convert_string_def)
qed

lemma extends_convert_list:
  assumes "\<And>flag s. extends s (final (convert_list_loop n flag s))"
  shows "extends s (final (convert_list n s))"
proof -
  have "extends (output_character (CHR ''['') s)
          (final (convert_list_loop n False (output_character (CHR ''['') s)))"
    by (rule assms)
  with extends_output [OF extends_refl, of s "CHR ''[''"]
  have "extends s (final (convert_list_loop n False (output_character (CHR ''['') s)))"
    by (rule extends_trans)
  then show ?thesis by (auto simp: extends_output split: outcome.splits)
qed

lemma extends_convert_dictionary:
  assumes "\<And>flag s. extends s (final (convert_dictionary_loop n flag s))"
  shows "extends s (final (convert_dictionary n s))"
proof -
  have "extends (output_character (CHR ''{'') s)
          (final (convert_dictionary_loop n False (output_character (CHR ''{'') s)))"
    by (rule assms)
  with extends_output [OF extends_refl, of s "CHR ''{''"]
  have "extends s (final (convert_dictionary_loop n False (output_character (CHR ''{'') s)))"
    by (rule extends_trans)
  then show ?thesis by (auto simp: extends_output split: outcome.splits)
qed

lemma extends_convert_all:
  "(\<forall>s. extends s (final (convert_value n s))) \<and>
   (\<forall>flag s. extends s (final (convert_list_loop n flag s))) \<and>
   (\<forall>flag s. extends s (final (convert_dictionary_loop n flag s)))"
proof (induction n)
  case 0
  then show ?case by (simp add: extends_refl)
next
  case (Suc n)
  then have v: "\<And>s. extends s (final (convert_value n s))"
    and l: "\<And>flag s. extends s (final (convert_list_loop n flag s))"
    and d: "\<And>flag s. extends s (final (convert_dictionary_loop n flag s))"
    by blast+
  have "extends s (final (convert_value (Suc n) s))" for s
  proof -
    obtain r s1 where g: "get_character s = (r, s1)" by (cases "get_character s")
    then have e: "extends s s1" by (rule extends_get)
    from g have u: "extends s (unget_character (to_char r) s1)" by (rule extends_get_unget)
    have "extends s (final (convert_integer n s1))"
      using e extends_convert_integer by (rule extends_trans)
    moreover have "extends s (final (convert_list n s1))"
      using e extends_convert_list [OF l] by (rule extends_trans)
    moreover have "extends s (final (convert_dictionary n s1))"
      using e extends_convert_dictionary [OF d] by (rule extends_trans)
    moreover have "extends s (final (convert_string (unget_character (to_char r) s1)))"
      using u extends_convert_string by (rule extends_trans)
    ultimately show ?thesis using g by (simp add: Let_def)
  qed
  moreover have "extends s (final (convert_list_loop (Suc n) flag s))" for flag s
  proof -
    obtain r s1 where g: "get_character s = (r, s1)" by (cases "get_character s")
    then have e: "extends s s1" by (rule extends_get)
    let ?s2 = "unget_character (to_char r) s1"
    let ?s3 = "if flag then output_character (CHR '','') ?s2 else ?s2"
    from g have "extends s ?s2" by (rule extends_get_unget)
    then have "extends s ?s3" by (simp add: extends_output)
    then have v3: "extends s (final (convert_value n ?s3))" using v by (rule extends_trans)
    show ?thesis
    proof (cases "convert_value n ?s3")
      case (Return u s4)
      with v3 have "extends s s4" by simp
      then have "extends s (final (convert_list_loop n True s4))" using l by (rule extends_trans)
      with g e Return show ?thesis by (simp add: Let_def)
    next
      case (Stop err s4)
      with g e v3 show ?thesis by (simp add: Let_def)
    qed
  qed
  moreover have "extends s (final (convert_dictionary_loop (Suc n) flag s))" for flag s
  proof -
    obtain r s1 where g: "get_character s = (r, s1)" by (cases "get_character s")
    then have e: "extends s s1" by (rule extends_get)
    let ?s2 = "unget_character (to_char r) s1"
    let ?s3 = "if flag then output_character (CHR '','') ?s2 else ?s2"
    from g have "extends s ?s2" by (rule extends_get_unget)
    then have "extends s ?s3" by (simp add: extends_output)
    then have v3: "extends s (final (convert_value n ?s3))" using v by (rule extends_trans)
    show ?thesis
    proof (cases "convert_value n ?s3")
      case r4: (Return u s4)
      with v3 have "extends s (output_character (CHR '':'') s4)" by (simp add: extends_output)
      then have v5: "extends s (final (convert_value n (output_character (CHR '':'') s4)))"
        using v by (rule extends_trans)
      show ?thesis
      proof (cases "convert_value n (output_character (CHR '':'') s4)")
        case (Return u' s5)
        with v5 have "extends s s5" by simp
        then have "extends s (final (convert_dictionary_loop n True s5))"
          using d by (rule extends_trans)
        with g e r4 Return show ?thesis by (simp add: Let_def)
      next
        case (Stop err s5)
        with g e r4 v5 show ?thesis by (simp add: Let_def)
      qed
    next
      case (Stop err s4)
      with g e v3 show ?thesis by (simp add: Let_def)
    qed
  qed
  ultimately show ?case by blast
qed

text \<open>
  C9. On any input and with any fuel, so also in a run that never returns, every initial
  part of the record of calls is in order: \<^verbatim>\<open>unget_character\<close> is called only directly
  after a call of \<^verbatim>\<open>get_character\<close>, never twice in a row, and with the value that call
  returned; and at most one byte is held pushed back.
\<close>

theorem pushback_discipline:
  "pushback_ok (take k (calls (final (main n (stdin bs))))) \<and>
   held (take k (calls (final (main n (stdin bs))))) \<le> 1"
proof -
  have "extends (stdin bs) (final (convert_value n (stdin bs)))"
    using extends_convert_all by blast
  moreover have "final (main n (stdin bs)) = final (convert_value n (stdin bs))"
    by (simp add: main_def split: outcome.splits)
  ultimately have "pushback_ok (calls (final (main n (stdin bs))))"
    by (auto simp: extends_def stdin_def)
  then have "pushback_ok (take k (calls (final (main n (stdin bs)))))"
    by (rule pushback_ok_take)
  then show ?thesis using pushback_ok_held by blast
qed

text \<open>The calls made on \<^verbatim>\<open>l1:ae\<close>.\<close>

theorem pushback_discipline_witness:
  "calls (final (main 3 (stdin ''l1:ae''))) =
     [Get (Some (CHR ''l'')), Get (Some (CHR ''1'')), Unget (CHR ''1''),
      Get (Some (CHR ''1'')), Unget (CHR ''1''), Get (Some (CHR ''1'')),
      Get (Some (CHR '':'')), Get (Some (CHR ''a'')), Get (Some (CHR ''e''))] \<and>
   pushback_ok (take 5 (calls (final (main 3 (stdin ''l1:ae''))))) \<and>
   held (take 5 (calls (final (main 3 (stdin ''l1:ae''))))) \<le> 1"
proof -
  have "calls (final (main 3 (stdin ''l1:ae''))) =
     [Get (Some (CHR ''l'')), Get (Some (CHR ''1'')), Unget (CHR ''1''),
      Get (Some (CHR ''1'')), Unget (CHR ''1''), Get (Some (CHR ''1'')),
      Get (Some (CHR '':'')), Get (Some (CHR ''a'')), Get (Some (CHR ''e''))]"
    by code_simp
  with pushback_discipline [of 5 3 "''l1:ae''"] show ?thesis by simp
qed

section \<open>The round trip\<close>

lemma reference_encode_canonical: "canonical v \<Longrightarrow> reference_encode v = encode v"
proof (induction v)
  case (BList vs)
  then have "map reference_encode vs = map encode vs" by (intro map_cong) auto
  then show ?case by (simp only: reference_encode.simps encode.simps)
next
  case (BDictionary kvs)
  then have "sort_key fst kvs = kvs" by (simp add: sort_key_id_if_sorted)
  moreover have "map (\<lambda>(k, v). encode_string k @ reference_encode v) kvs =
                 map (\<lambda>(k, v). encode_string k @ encode v) kvs"
  proof (intro map_cong refl)
    fix kv assume kv: "kv \<in> set kvs"
    obtain k v where e: "kv = (k, v)" by (cases kv)
    with kv BDictionary.prems have "canonical v" by auto
    moreover from e have "v \<in> Basic_BNFs.snds kv" by simp
    ultimately have "reference_encode v = encode v" using BDictionary.IH [OF kv] by blast
    with e show "(case kv of (k, v) \<Rightarrow> encode_string k @ reference_encode v) =
                 (case kv of (k, v) \<Rightarrow> encode_string k @ encode v)" by simp
  qed
  ultimately show ?case by (simp only: reference_encode.simps encode.simps)
qed simp_all

lemma json_escape_printable:
  "isprint c \<Longrightarrow>
   json_escape c = (if c = CHR 0x22 \<or> c = CHR 0x5C then [CHR 0x5C, c] else [c])"
  by (auto simp: json_escape_def isprint_def)

lemma json_chars_escape:
  "\<forall>c\<in>set bs. isprint c \<Longrightarrow>
   json_chars (concat (map json_escape bs) @ CHR 0x22 # rest) = Some (bs, rest)"
proof (induction bs)
  case Nil
  then show ?case by simp
next
  case (Cons b bs)
  then have "isprint b" and IH: "json_chars (concat (map json_escape bs) @ CHR 0x22 # rest) = Some (bs, rest)"
    by simp_all
  then show ?case
    by (cases "b = CHR 0x22 \<or> b = CHR 0x5C") (auto simp: json_escape_printable unescape_def)
qed

lemma takeWhile_digits:
  "\<forall>c\<in>set ds. isdigit c \<Longrightarrow> delimits rest \<Longrightarrow>
   takeWhile isdigit (ds @ rest) = ds \<and> dropWhile isdigit (ds @ rest) = rest"
  by (induction ds) (auto simp: delimits_def split: list.splits)

lemma json_number_show_int:
  assumes "delimits rest"
  shows "json_number (show_int k @ rest) = Some (k, rest)"
proof (cases "k < 0")
  case True
  let ?ds = "decimal (nat (- k))"
  have "takeWhile isdigit (?ds @ rest) = ?ds" "dropWhile isdigit (?ds @ rest) = rest"
    using takeWhile_digits [OF decimal_digits assms] by blast+
  with True show ?thesis
    by (simp add: json_number_def show_int_def decimal_not_Nil digits_value_decimal)
next
  case False
  let ?ds = "decimal (nat k)"
  obtain c cs where d: "?ds = c # cs" and c: "isdigit c" using decimal_Cons by blast
  then have m: "c \<noteq> CHR ''-''" using isdigit_not_space by blast
  have "takeWhile isdigit (?ds @ rest) = ?ds" "dropWhile isdigit (?ds @ rest) = rest"
    using takeWhile_digits [OF decimal_digits assms] by blast+
  moreover have "digits_value ?ds = nat k" by (rule digits_value_decimal)
  ultimately show ?thesis using False d m
    by (simp add: json_number_def show_int_def)
qed

lemma delimits_simps [simp]:
  "delimits []" "delimits (CHR '','' # cs)" "delimits (CHR '']'' # cs)" "delimits (CHR ''}'' # cs)"
  by (simp_all add: delimits_def isdigit_def)

lemma show_int_first:
  "\<exists>c cs. show_int k = c # cs \<and> c \<noteq> CHR 0x22 \<and> c \<noteq> CHR ''['' \<and> c \<noteq> CHR ''{'' \<and> c \<noteq> CHR '']''"
proof (cases "k < 0")
  case True
  then show ?thesis by (simp add: show_int_def)
next
  case False
  obtain c cs where "decimal (nat k) = c # cs" "isdigit c" using decimal_Cons by blast
  moreover from this have "c \<noteq> CHR 0x22 \<and> c \<noteq> CHR ''['' \<and> c \<noteq> CHR ''{'' \<and> c \<noteq> CHR '']''"
    by (auto simp: isdigit_def)
  ultimately show ?thesis using False by (simp add: show_int_def)
qed

lemma json_first: "\<exists>c cs. json v = c # cs \<and> c \<noteq> CHR '']''"
proof (cases v)
  case (BInteger k)
  with show_int_first [of k] show ?thesis by auto
qed (simp_all add: json_string_def)

lemma json_value_integer:
  assumes "delimits rest" and "0 < n"
  shows "json_value n (show_int k @ rest) = Some (BInteger k, rest)"
proof -
  from assms(2) obtain m where n: "n = Suc m" by (cases n) auto
  obtain c cs where s: "show_int k = c # cs"
    and c: "c \<noteq> CHR 0x22" "c \<noteq> CHR ''[''" "c \<noteq> CHR ''{''"
    using show_int_first by blast
  have "json_number (show_int k @ rest) = Some (k, rest)"
    using assms(1) by (rule json_number_show_int)
  with s have "json_number (c # cs @ rest) = Some (k, rest)" by simp
  with s c show ?thesis by (simp add: n)
qed

lemma json_value_string:
  assumes "\<forall>c\<in>set bs. isprint c" and "0 < n"
  shows "json_value n (json_string bs @ rest) = Some (BString bs, rest)"
proof -
  from assms(2) obtain m where n: "n = Suc m" by (cases n) auto
  from assms(1) show ?thesis by (simp add: n json_string_def json_chars_escape)
qed

lemma json_items_json:
  assumes "\<And>w n rest. w \<in> set (v # vs) \<Longrightarrow> enough w \<le> n \<Longrightarrow> delimits rest \<Longrightarrow>
             json_value n (json w @ rest) = Some (w, rest)"
    and "length (v # vs) + sum_list (map enough (v # vs)) \<le> n"
  shows "json_items n (json v @ concat (map (\<lambda>w. CHR '','' # json w) vs) @ CHR '']'' # rest) =
           Some (v # vs, rest)"
  using assms
proof (induction vs arbitrary: v n)
  case Nil
  from Nil.prems(2) obtain m where n: "n = Suc m" by (cases n) auto
  with Nil.prems(2) have "enough v \<le> m" by simp
  then have "json_value m (json v @ CHR '']'' # rest) = Some (v, CHR '']'' # rest)"
    by (intro Nil.prems(1)) simp_all
  then show ?case by (simp add: n)
next
  case (Cons w ws)
  from Cons.prems(2) obtain m where n: "n = Suc m" by (cases n) auto
  let ?tail = "json w @ concat (map (\<lambda>w. CHR '','' # json w) ws) @ CHR '']'' # rest"
  from Cons.prems(2) n have "enough v \<le> m" by simp
  then have v: "json_value m (json v @ CHR '','' # ?tail) = Some (v, CHR '','' # ?tail)"
    by (intro Cons.prems(1)) simp_all
  have "json_items m ?tail = Some (w # ws, rest)"
  proof (rule Cons.IH)
    fix u n rest
    assume "u \<in> set (w # ws)" "enough u \<le> n" "delimits rest"
    then show "json_value n (json u @ rest) = Some (u, rest)"
      using Cons.prems(1) [of u n rest] by simp
  next
    from Cons.prems(2) n show "length (w # ws) + sum_list (map enough (w # ws)) \<le> m" by simp
  qed
  with v show ?case by (simp add: n)
qed

lemma json_members_json:
  assumes "\<And>w n rest. w \<in> snd ` set ((k, v) # kvs) \<Longrightarrow> enough w \<le> n \<Longrightarrow> delimits rest \<Longrightarrow>
             json_value n (json w @ rest) = Some (w, rest)"
    and "\<forall>(k, v)\<in>set ((k, v) # kvs). \<forall>c\<in>set k. isprint c"
    and "length ((k, v) # kvs) + sum_list (map (\<lambda>(k, v). enough v) ((k, v) # kvs)) \<le> n"
  shows "json_members n
           (json_string k @ CHR '':'' # json v @
            concat (map (\<lambda>(k, v). CHR '','' # json_string k @ CHR '':'' # json v) kvs) @
            CHR ''}'' # rest) =
           Some ((k, v) # kvs, rest)"
  using assms
proof (induction kvs arbitrary: k v n)
  case Nil
  from Nil.prems(3) obtain m where n: "n = Suc m" by (cases n) auto
  from Nil.prems(2) have "json_chars (concat (map json_escape k) @ CHR 0x22 # CHR '':'' # json v @ CHR ''}'' # rest) =
      Some (k, CHR '':'' # json v @ CHR ''}'' # rest)"
    by (intro json_chars_escape) simp
  moreover from Nil.prems(3) n have "enough v \<le> m" by simp
  then have "json_value m (json v @ CHR ''}'' # rest) = Some (v, CHR ''}'' # rest)"
    by (intro Nil.prems(1)) simp_all
  ultimately show ?case by (simp add: n json_string_def)
next
  case (Cons kw kws)
  obtain k' w where kw: "kw = (k', w)" by (cases kw)
  from Cons.prems(3) obtain m where n: "n = Suc m" by (cases n) auto
  let ?tail = "json_string k' @ CHR '':'' # json w @
            concat (map (\<lambda>(k, v). CHR '','' # json_string k @ CHR '':'' # json v) kws) @
            CHR ''}'' # rest"
  from Cons.prems(2) have "json_chars (concat (map json_escape k) @ CHR 0x22 # CHR '':'' # json v @ CHR '','' # ?tail) =
      Some (k, CHR '':'' # json v @ CHR '','' # ?tail)"
    by (intro json_chars_escape) simp
  moreover from Cons.prems(3) n have "enough v \<le> m" by simp
  then have "json_value m (json v @ CHR '','' # ?tail) = Some (v, CHR '','' # ?tail)"
    by (intro Cons.prems(1)) simp_all
  moreover have "json_members m ?tail = Some ((k', w) # kws, rest)"
  proof (rule Cons.IH)
    fix u n rest
    assume "u \<in> snd ` set ((k', w) # kws)" "enough u \<le> n" "delimits rest"
    then show "json_value n (json u @ rest) = Some (u, rest)"
      using Cons.prems(1) [of u n rest] kw by auto
  next
    from Cons.prems(2) kw show "\<forall>(k, v)\<in>set ((k', w) # kws). \<forall>c\<in>set k. isprint c" by simp
  next
    from Cons.prems(3) n kw
    show "length ((k', w) # kws) + sum_list (map (\<lambda>(k, v). enough v) ((k', w) # kws)) \<le> m"
      by simp
  qed
  ultimately show ?case by (simp add: n kw json_string_def)
qed

lemma json_value_json:
  "printable v \<Longrightarrow> enough v \<le> n \<Longrightarrow> delimits rest \<Longrightarrow>
   json_value n (json v @ rest) = Some (v, rest)"
proof (induction v arbitrary: n rest)
  case (BInteger k)
  then show ?case using json_value_integer [of rest n k] by simp
next
  case (BString bs)
  then show ?case using json_value_string [of bs n rest] by simp
next
  case (BList vs)
  from BList.prems(2) obtain m where n: "n = Suc m" by (cases n) auto
  show ?case
  proof (cases vs)
    case Nil
    then show ?thesis by (simp add: n)
  next
    case (Cons v vs')
    obtain c cs where f: "json v = c # cs" and c: "c \<noteq> CHR '']''" using json_first by blast
    have "json_items m (json v @ concat (map (\<lambda>w. CHR '','' # json w) vs') @ CHR '']'' # rest) =
           Some (v # vs', rest)"
    proof (rule json_items_json)
      fix w n rest
      assume w: "w \<in> set (v # vs')" and *: "enough w \<le> n" "delimits rest"
      with Cons have w': "w \<in> set vs" by simp
      with BList.prems(1) have "printable w" by simp
      from BList.IH [OF w' this *]
      show "json_value n (json w @ rest) = Some (w, rest)" .
    next
      from BList.prems(2) n Cons
      show "length (v # vs') + sum_list (map enough (v # vs')) \<le> m" by simp
    qed
    with f c Cons show ?thesis by (simp add: n comp_def)
  qed
next
  case (BDictionary kvs)
  from BDictionary.prems(2) obtain m where n: "n = Suc m" by (cases n) auto
  show ?case
  proof (cases kvs)
    case Nil
    then show ?thesis by (simp add: n)
  next
    case (Cons kv kvs')
    obtain k v where kv: "kv = (k, v)" by (cases kv)
    have "json_members m
           (json_string k @ CHR '':'' # json v @
            concat (map (\<lambda>(k, v). CHR '','' # json_string k @ CHR '':'' # json v) kvs') @
            CHR ''}'' # rest) =
           Some ((k, v) # kvs', rest)"
    proof (rule json_members_json)
      fix w n rest
      assume "w \<in> snd ` set ((k, v) # kvs')" and *: "enough w \<le> n" "delimits rest"
      then have "w \<in> snd ` set kvs" using Cons kv by simp
      then obtain k' where m: "(k', w) \<in> set kvs" by force
      with BDictionary.prems(1) have p: "printable w" by auto
      have "w \<in> Basic_BNFs.snds (k', w)" by simp
      from BDictionary.IH [OF m this p *]
      show "json_value n (json w @ rest) = Some (w, rest)" .
    next
      from BDictionary.prems(1) Cons kv
      show "\<forall>(k, v)\<in>set ((k, v) # kvs'). \<forall>c\<in>set k. isprint c" by auto
    next
      from BDictionary.prems(2) n Cons kv
      show "length ((k, v) # kvs') + sum_list (map (\<lambda>(k, v). enough v) ((k, v) # kvs')) \<le> m"
        by simp
    qed
    with Cons kv show ?thesis by (simp add: n comp_def json_string_def case_prod_unfold)
  qed
qed

lemma convert_value_never_too_large:
  "returned (main n (stdin (''2147483648:'' @ rest))) = None"
proof -
  have "returned (convert_value n (stdin (''2147483648:'' @ rest))) = None"
    by (rule convert_value_too_large [of _ rest]) (simp add: stdin_def)
  then show ?thesis by (auto simp: main_def returned_None)
qed

text \<open>
  C8, as amended. For a value with its dictionary keys in order, whose strings are printable
  ASCII and at most \<open>INT_MAX\<close> bytes long: the program, run on the encoding of the value,
  returns, and decoding the JSON text it wrote and encoding the result with the reference
  encoder gives the input back, byte for byte.
\<close>

theorem round_trip:
  assumes "int_sized v" and "printable v" and "canonical v" and "enough v \<le> n"
  shows "\<exists>s'. main n (stdin (encode v)) = Return 0 s' \<and>
              map_option reference_encode (json_decode n (out s')) = Some (encode v)"
proof -
  have "inp (stdin (encode v)) = encode v @ []" by (simp add: stdin_def)
  from convert_value_encode [OF assms(1) assms(4) this]
  obtain s' where c: "convert_value n (stdin (encode v)) = Return () s'"
    and o: "out s' = json v" by (auto simp: stdin_def)
  have "json_value n (json v @ []) = Some (v, [])"
    using assms(2) assms(4) by (rule json_value_json) simp
  then have "json_decode n (json v) = Some v" by (simp add: json_decode_def)
  moreover have "reference_encode v = encode v"
    using assms(3) by (rule reference_encode_canonical)
  ultimately have "map_option reference_encode (json_decode n (out s')) = Some (encode v)"
    using o by simp
  with c show ?thesis by (simp add: main_def)
qed

text \<open>The input \<^verbatim>\<open>d3:cow3:moo4:spamli-42e3:a bee\<close>.\<close>

theorem round_trip_witness:
  "int_sized (BDictionary [(''cow'', BString ''moo''), (''spam'', BList [BInteger (- 42), BString ''a b''])]) \<and>
   printable (BDictionary [(''cow'', BString ''moo''), (''spam'', BList [BInteger (- 42), BString ''a b''])]) \<and>
   canonical (BDictionary [(''cow'', BString ''moo''), (''spam'', BList [BInteger (- 42), BString ''a b''])]) \<and>
   (\<exists>s'. main 20 (stdin ''d3:cow3:moo4:spamli-42e3:a bee'') = Return 0 s' \<and>
      map_option reference_encode (json_decode 20 (out s')) = Some ''d3:cow3:moo4:spamli-42e3:a bee'')"
proof -
  let ?v = "BDictionary [(''cow'', BString ''moo''), (''spam'', BList [BInteger (- 42), BString ''a b''])]"
  have i: "int_sized ?v" by (simp add: INT_MAX_def)
  have p: "printable ?v" by (simp add: isprint_def isalnum_def)
  have c: "canonical ?v" by code_simp
  have e: "encode ?v = ''d3:cow3:moo4:spamli-42e3:a bee''"
    by (simp add: encode_string_def decimal.simps show_int_def digit_char_def)
  have n: "enough ?v \<le> 20"
    by (simp add: show_int_def decimal.simps)
  from round_trip [OF i p c n] i p c show ?thesis unfolding e by blast
qed

text \<open>
  C8 as stated fails on a string of 2147483648 bytes \<open>a\<close>: the program does not return on
  it, whatever the fuel, so there is no JSON text to decode.
\<close>

theorem round_trip_counterexample:
  "\<not> (\<exists>n s'. main n (stdin (''2147483648:'' @ replicate 2147483648 (CHR ''a''))) = Return 0 s')"
proof
  assume "\<exists>n s'. main n (stdin (''2147483648:'' @ replicate 2147483648 (CHR ''a''))) = Return 0 s'"
  then obtain n s' where
    "main n (stdin (''2147483648:'' @ replicate 2147483648 (CHR ''a''))) = Return 0 s'" by blast
  moreover have "returned (main n (stdin (''2147483648:'' @ replicate 2147483648 (CHR ''a'')))) = None"
    by (rule convert_value_never_too_large)
  ultimately show False by simp
qed

end
